theory Spec2Isabelle
  imports Main "HOL-Library.AList" "HOL-Library.Sublist"
begin

section \<open>Security events, rules and metrics (security-monitor)\<close>

text \<open>
  The monitor of the repository keeps a bounded list of security events, counters derived
  from it, a registry of threat rules and, per rule id, the instant of the last firing.
  The model follows the TypeScript class member by member. Three things the class takes
  from its environment are made explicit arguments:
  \<^item> the clock: every \<open>Date.now()\<close> read during one call is the argument \<open>now\<close>
    (milliseconds since the epoch, an \<open>int\<close>);
  \<^item> the random part of a generated event id: \<open>rnd k\<close> is the suffix drawn for the
    \<open>k\<close>-th id of the call (\<open>rnd 0\<close> for the recorded event, \<open>rnd (Suc i)\<close> for the
    synthetic event of the rule at position \<open>i\<close> of the registry);
  \<^item> a rule's condition is a function of the clock and of the event list it is handed, and
    it either returns a boolean or throws (\<open>Inl\<close>).
  What the class does to its environment is kept in two logs: the notifications emitted
  through the EventEmitter and the ids of the rules whose condition was invoked.
\<close>

datatype SecurityEventType =
    RATE_LIMIT_EXCEEDED
  | SUSPICIOUS_INPUT
  | AUTHENTICATION_FAILURE
  | UNAUTHORIZED_ACCESS
  | SQL_INJECTION_ATTEMPT
  | XSS_ATTEMPT
  | CSRF_TOKEN_MISMATCH
  | FILE_UPLOAD_VIOLATION
  | SECURITY_HEADER_MISSING
  | MALFORMED_REQUEST
  | BRUTE_FORCE_ATTEMPT
  | ANOMALOUS_BEHAVIOR

datatype severity = Low | Medium | High | Critical

datatype action = Log | Alert | Block

text \<open>The id \<open>sec_<now>_<random>\<close>, kept as its two parts.\<close>

datatype event_id = EventId int string

datatype dvalue = DStr string | DNum int | DId event_id | DAction action

type_synonym details = "(string \<times> dvalue) list"

record metadata =
  userAgent :: "string option"
  ip :: "string option"
  userId :: "string option"
  sessionId :: "string option"
  requestId :: "string option"

record SecurityEvent =
  id_ev :: event_id
  timestamp :: int
  type_ev :: SecurityEventType
  severity_ev :: severity
  source :: string
  details :: details
  metadata :: metadata

text \<open>The argument of \<open>recordEvent\<close>: an event without id and timestamp.\<close>

record EventInput =
  type_in :: SecurityEventType
  severity_in :: severity
  source_in :: string
  details_in :: details
  metadata_in :: metadata

type_synonym exn = string

record ThreatDetectionRule =
  id_rule :: string
  name :: string
  description :: string
  eventTypes :: "SecurityEventType list"
  condition :: "int \<Rightarrow> SecurityEvent list \<Rightarrow> exn + bool"
  action_rule :: action
  severity_rule :: severity
  cooldown :: int

record alertThresholds =
  rateLimit :: int
  authFailures :: int
  injectionAttempts :: int

record SecurityMetrics =
  totalEvents :: nat
  eventsByType :: "SecurityEventType \<Rightarrow> nat"
  eventsBySeverity :: "severity \<Rightarrow> nat"
  recentEvents :: "SecurityEvent list"
  topSources :: "(string \<times> nat) list"
  thresholds :: alertThresholds

datatype emission =
    SecurityEventEmitted SecurityEvent
  | ThreatDetected ThreatDetectionRule SecurityEvent SecurityEvent
  | BlockRequest string ThreatDetectionRule
  | SecurityAlert ThreatDetectionRule SecurityEvent

record SecurityMonitor =
  events :: "SecurityEvent list"
  metrics :: SecurityMetrics
  threatRules :: "(string \<times> ThreatDetectionRule) list"
  lastRuleTrigger :: "string \<rightharpoonup> int"
  maxEventsHistory :: int
  emitted :: "emission list"
  evaluated :: "string list"

record MonitorConfig =
  maxEventsHistory_cfg :: "int option"
  threatDetectionRules :: "ThreatDetectionRule list option"

definition all_event_types :: "SecurityEventType list" where
  "all_event_types =
     [RATE_LIMIT_EXCEEDED, SUSPICIOUS_INPUT, AUTHENTICATION_FAILURE, UNAUTHORIZED_ACCESS,
      SQL_INJECTION_ATTEMPT, XSS_ATTEMPT, CSRF_TOKEN_MISMATCH, FILE_UPLOAD_VIOLATION,
      SECURITY_HEADER_MISSING, MALFORMED_REQUEST, BRUTE_FORCE_ATTEMPT, ANOMALOUS_BEHAVIOR]"

definition initializeMetrics :: SecurityMetrics where
  "initializeMetrics =
     \<lparr> totalEvents = 0,
       eventsByType = (\<lambda>_. 0),
       eventsBySeverity = (\<lambda>_. 0),
       recentEvents = [],
       topSources = [],
       thresholds = \<lparr> rateLimit = 100, authFailures = 10, injectionAttempts = 5 \<rparr> \<rparr>"

subsection \<open>Metrics\<close>

text \<open>\<open>existing.count++\<close> on the first entry that \<open>find\<close> returns.\<close>

fun incFirst :: "string \<Rightarrow> (string \<times> nat) list \<Rightarrow> (string \<times> nat) list" where
  "incFirst s [] = []"
| "incFirst s (p # ps) = (if fst p = s then (fst p, Suc (snd p)) # ps else p # incFirst s ps)"

text \<open>
  \<open>Array.prototype.sort\<close> is stable; with the comparator \<open>b.count - a.count\<close> it is the
  stable sort by descending count, here the insertion sort of the library on the negated
  count.
\<close>

definition sortByCountDesc :: "('a \<times> nat) list \<Rightarrow> ('a \<times> nat) list" where
  "sortByCountDesc ps = sort_key (\<lambda>p. - int (snd p)) ps"

definition updateTopSources :: "string \<Rightarrow> (string \<times> nat) list \<Rightarrow> (string \<times> nat) list" where
  "updateTopSources s ts =
     take 10 (sortByCountDesc
       (case find (\<lambda>p. fst p = s) ts of
          Some _ \<Rightarrow> incFirst s ts
        | None \<Rightarrow> ts @ [(s, 1)]))"

definition updateMetrics :: "SecurityEvent \<Rightarrow> SecurityMetrics \<Rightarrow> SecurityMetrics" where
  "updateMetrics e mt =
     (let recent = recentEvents mt @ [e] in
      mt \<lparr> totalEvents := Suc (totalEvents mt),
           eventsByType := (eventsByType mt)(type_ev e := Suc (eventsByType mt (type_ev e))),
           eventsBySeverity :=
             (eventsBySeverity mt)(severity_ev e := Suc (eventsBySeverity mt (severity_ev e))),
           recentEvents := (if length recent > 10 then tl recent else recent),
           topSources := updateTopSources (source e) (topSources mt) \<rparr>)"

subsection \<open>Rule evaluation\<close>

definition handleThreatDetection ::
  "int \<Rightarrow> string \<Rightarrow> ThreatDetectionRule \<Rightarrow> SecurityEvent \<Rightarrow> SecurityMonitor \<Rightarrow> SecurityMonitor" where
  "handleThreatDetection now rand rule triggerEvent m =
     (let threatEvent =
            \<lparr> id_ev = EventId now rand,
              timestamp = now,
              type_ev = ANOMALOUS_BEHAVIOR,
              severity_ev = severity_rule rule,
              source = source triggerEvent,
              details = [(''ruleName'', DStr (name rule)),
                         (''ruleDescription'', DStr (description rule)),
                         (''triggerEvent'', DId (id_ev triggerEvent)),
                         (''action'', DAction (action_rule rule))],
              metadata = metadata triggerEvent \<rparr>
      in m \<lparr> events := events m @ [threatEvent],
             metrics := updateMetrics threatEvent (metrics m),
             emitted := emitted m @ [ThreatDetected rule triggerEvent threatEvent] @
               (case action_rule rule of
                  Block \<Rightarrow> [BlockRequest (source triggerEvent) rule]
                | Alert \<Rightarrow> [SecurityAlert rule triggerEvent]
                | Log \<Rightarrow> []) \<rparr>)"

text \<open>
  \<open>lastTrigger && Date.now() - lastTrigger < rule.cooldown\<close>: an absent entry and the
  instant 0 are both falsy.
\<close>

definition inCooldown :: "int \<Rightarrow> ThreatDetectionRule \<Rightarrow> int option \<Rightarrow> bool" where
  "inCooldown now rule lastTrigger =
     (case lastTrigger of
        None \<Rightarrow> False
      | Some t \<Rightarrow> t \<noteq> 0 \<and> now - t < cooldown rule)"

text \<open>
  The loop of \<open>checkThreatRules\<close> over the registry, in insertion order. The second
  component of the result is the exception that left the loop, if one did; the monitor
  returned with it is the state the exception left behind.
\<close>

fun checkRules ::
  "int \<Rightarrow> (nat \<Rightarrow> string) \<Rightarrow> nat \<Rightarrow> SecurityEvent \<Rightarrow> (string \<times> ThreatDetectionRule) list
     \<Rightarrow> SecurityMonitor \<Rightarrow> SecurityMonitor \<times> exn option" where
  "checkRules now rnd i event [] m = (m, None)"
| "checkRules now rnd i event ((ruleId, rule) # rest) m =
     (if type_ev event \<notin> set (eventTypes rule) then checkRules now rnd (Suc i) event rest m
      else if inCooldown now rule (lastRuleTrigger m ruleId)
        then checkRules now rnd (Suc i) event rest m
      else
        (let m1 = m \<lparr> evaluated := evaluated m @ [ruleId] \<rparr> in
         case condition rule now (events m1) of
           Inl x \<Rightarrow> (m1, Some x)
         | Inr True \<Rightarrow>
             checkRules now rnd (Suc i) event rest
               (handleThreatDetection now (rnd (Suc i)) rule event
                  (m1 \<lparr> lastRuleTrigger := (lastRuleTrigger m1)(ruleId \<mapsto> now) \<rparr>))
         | Inr False \<Rightarrow> checkRules now rnd (Suc i) event rest m1))"

definition checkThreatRules ::
  "int \<Rightarrow> (nat \<Rightarrow> string) \<Rightarrow> SecurityEvent \<Rightarrow> SecurityMonitor \<Rightarrow> SecurityMonitor \<times> exn option" where
  "checkThreatRules now rnd event m = checkRules now rnd 0 event (threatRules m) m"

subsection \<open>Recording an event\<close>

definition fullEvent :: "int \<Rightarrow> (nat \<Rightarrow> string) \<Rightarrow> EventInput \<Rightarrow> SecurityEvent" where
  "fullEvent now rnd inp =
     \<lparr> id_ev = EventId now (rnd 0),
       timestamp = now,
       type_ev = type_in inp,
       severity_ev = severity_in inp,
       source = source_in inp,
       details = details_in inp,
       metadata = metadata_in inp \<rparr>"

text \<open>The first half of \<open>recordEvent\<close>: push, one \<open>shift\<close> when over the limit, metrics.\<close>

definition appendEvent :: "SecurityEvent \<Rightarrow> SecurityMonitor \<Rightarrow> SecurityMonitor" where
  "appendEvent e m =
     (let pushed = events m @ [e] in
      m \<lparr> events := (if int (length pushed) > maxEventsHistory m then tl pushed else pushed),
          metrics := updateMetrics e (metrics m) \<rparr>)"

definition recordEvent ::
  "int \<Rightarrow> (nat \<Rightarrow> string) \<Rightarrow> EventInput \<Rightarrow> SecurityMonitor
     \<Rightarrow> SecurityMonitor \<times> (exn + SecurityEvent)" where
  "recordEvent now rnd inp m =
     (let e = fullEvent now rnd inp in
      case checkThreatRules now rnd e (appendEvent e m) of
        (m', Some x) \<Rightarrow> (m', Inl x)
      | (m', None) \<Rightarrow> (m' \<lparr> emitted := emitted m' @ [SecurityEventEmitted e] \<rparr>, Inr e))"

subsection \<open>Reading the log\<close>

definition getMetrics :: "SecurityMonitor \<Rightarrow> SecurityMetrics" where
  "getMetrics m = metrics m"

text \<open>
  \<open>xs.slice(start)\<close> for an integer \<open>start\<close>: a negative start counts from the end and
  is clamped at the front, a non-negative one is clamped at the length.
\<close>

definition slice_from :: "int \<Rightarrow> 'a list \<Rightarrow> 'a list" where
  "slice_from start xs =
     (let len = int (length xs);
          k = (if start < 0 then max (len + start) 0 else min start len)
      in drop (nat k) xs)"

definition getRecentEvents :: "int option \<Rightarrow> SecurityMonitor \<Rightarrow> SecurityEvent list" where
  "getRecentEvents limit m =
     slice_from (- (case limit of None \<Rightarrow> 100 | Some l \<Rightarrow> l)) (events m)"

definition getEventsInRange :: "int \<Rightarrow> int \<Rightarrow> SecurityMonitor \<Rightarrow> SecurityEvent list" where
  "getEventsInRange startTime endTime m =
     filter (\<lambda>e. timestamp e \<ge> startTime \<and> timestamp e \<le> endTime) (events m)"

definition isSuspiciousSource :: "int \<Rightarrow> string \<Rightarrow> int option \<Rightarrow> SecurityMonitor \<Rightarrow> bool" where
  "isSuspiciousSource now src timeWindow m =
     (let cutoff = now - (case timeWindow of None \<Rightarrow> 300000 | Some w \<Rightarrow> w);
          recent = filter (\<lambda>e. source e = src \<and> timestamp e > cutoff \<and>
                                (severity_ev e = High \<or> severity_ev e = Critical)) (events m)
      in length recent > 5)"

subsection \<open>The rule registry\<close>

definition addThreatRule :: "ThreatDetectionRule \<Rightarrow> SecurityMonitor \<Rightarrow> SecurityMonitor" where
  "addThreatRule rule m = m \<lparr> threatRules := AList.update (id_rule rule) rule (threatRules m) \<rparr>"

definition removeThreatRule :: "string \<Rightarrow> SecurityMonitor \<Rightarrow> SecurityMonitor" where
  "removeThreatRule ruleId m =
     m \<lparr> threatRules := AList.delete ruleId (threatRules m),
         lastRuleTrigger := (lastRuleTrigger m)(ruleId := None) \<rparr>"

definition clear :: "SecurityMonitor \<Rightarrow> SecurityMonitor" where
  "clear m = m \<lparr> events := [], metrics := initializeMetrics, lastRuleTrigger := Map.empty \<rparr>"

subsection \<open>Counting by key\<close>

text \<open>
  A \<open>Map\<close> filled by \<open>m.set(k, (m.get(k) || 0) + 1)\<close> for each element of a list: an
  association list in insertion order, an existing key keeping its place.
\<close>

definition countInto :: "'k \<Rightarrow> ('k \<times> nat) list \<Rightarrow> ('k \<times> nat) list" where
  "countInto k m = AList.update k ((case map_of m k of None \<Rightarrow> 0 | Some c \<Rightarrow> c) + 1) m"

definition tally :: "'k list \<Rightarrow> ('k \<times> nat) list" where
  "tally ks = fold countInto ks []"

subsection \<open>The default rules and the constructor\<close>

definition bruteForceCondition :: "int \<Rightarrow> SecurityEvent list \<Rightarrow> exn + bool" where
  "bruteForceCondition now evs =
     (let recent = filter (\<lambda>e. type_ev e = AUTHENTICATION_FAILURE \<and>
                               now - timestamp e < 300000) evs;
          sourceGroups = tally (map source recent)
      in Inr (list_ex (\<lambda>c. c \<ge> 5) (map snd sourceGroups)))"

definition injectionCondition :: "int \<Rightarrow> SecurityEvent list \<Rightarrow> exn + bool" where
  "injectionCondition now evs =
     (let recent = filter (\<lambda>e. type_ev e = SQL_INJECTION_ATTEMPT \<and>
                               now - timestamp e < 600000) evs
      in Inr (length recent \<ge> 3))"

definition rateLimitCondition :: "int \<Rightarrow> SecurityEvent list \<Rightarrow> exn + bool" where
  "rateLimitCondition now evs =
     (let recent = filter (\<lambda>e. type_ev e = RATE_LIMIT_EXCEEDED \<and>
                               now - timestamp e < 3600000) evs;
          sourceGroups = tally (map source recent)
      in Inr (list_ex (\<lambda>c. c \<ge> 10) (map snd sourceGroups)))"

definition defaultRules :: "ThreatDetectionRule list" where
  "defaultRules =
     [ \<lparr> id_rule = ''brute_force_detection'',
         name = ''Brute Force Attack Detection'',
         description = ''Detects multiple authentication failures from the same source'',
         eventTypes = [AUTHENTICATION_FAILURE],
         condition = bruteForceCondition,
         action_rule = Block,
         severity_rule = High,
         cooldown = 600000 \<rparr>,
       \<lparr> id_rule = ''injection_attack_pattern'',
         name = ''Injection Attack Pattern'',
         description = ''Detects patterns of SQL/NoSQL injection attempts'',
         eventTypes = [SQL_INJECTION_ATTEMPT],
         condition = injectionCondition,
         action_rule = Alert,
         severity_rule = High,
         cooldown = 300000 \<rparr>,
       \<lparr> id_rule = ''rate_limit_abuse'',
         name = ''Rate Limit Abuse'',
         description = ''Detects persistent rate limit violations'',
         eventTypes = [RATE_LIMIT_EXCEEDED],
         condition = rateLimitCondition,
         action_rule = Block,
         severity_rule = Medium,
         cooldown = 1800000 \<rparr> ]"

definition addThreatRules :: "ThreatDetectionRule list \<Rightarrow> SecurityMonitor \<Rightarrow> SecurityMonitor" where
  "addThreatRules rules m = fold addThreatRule rules m"

definition loadDefaultThreatRules :: "SecurityMonitor \<Rightarrow> SecurityMonitor" where
  "loadDefaultThreatRules m = addThreatRules defaultRules m"

text \<open>\<open>config.maxEventsHistory || 10000\<close>: absent and 0 both give the default.\<close>

definition newSecurityMonitor :: "MonitorConfig \<Rightarrow> SecurityMonitor" where
  "newSecurityMonitor config =
     (let m0 = \<lparr> events = [],
                 metrics = initializeMetrics,
                 threatRules = [],
                 lastRuleTrigger = Map.empty,
                 maxEventsHistory =
                   (case maxEventsHistory_cfg config of
                      None \<Rightarrow> 10000
                    | Some v \<Rightarrow> if v = 0 then 10000 else v),
                 emitted = [],
                 evaluated = [] \<rparr>;
          m1 = loadDefaultThreatRules m0
      in case threatDetectionRules config of
           None \<Rightarrow> m1
         | Some rules \<Rightarrow> addThreatRules rules m1)"

subsection \<open>Sequences of calls\<close>

text \<open>
  A caller's use of a monitor is a list of calls. A \<open>recordEvent\<close> that throws leaves the
  monitor as the exception found it, and the caller goes on with that monitor.
\<close>

datatype operation =
    RecordEvent int "nat \<Rightarrow> string" EventInput
  | AddThreatRule ThreatDetectionRule
  | RemoveThreatRule string
  | Clear

fun step :: "operation \<Rightarrow> SecurityMonitor \<Rightarrow> SecurityMonitor" where
  "step (RecordEvent now rnd inp) m = fst (recordEvent now rnd inp m)"
| "step (AddThreatRule rule) m = addThreatRule rule m"
| "step (RemoveThreatRule ruleId) m = removeThreatRule ruleId m"
| "step Clear m = clear m"

definition run :: "operation list \<Rightarrow> SecurityMonitor \<Rightarrow> SecurityMonitor" where
  "run ops m = fold step ops m"

fun isRecordEvent :: "operation \<Rightarrow> bool" where
  "isRecordEvent (RecordEvent now rnd inp) = True"
| "isRecordEvent _ = False"

fun isThreatDetected :: "emission \<Rightarrow> bool" where
  "isThreatDetected (ThreatDetected rule triggerEvent threatEvent) = True"
| "isThreatDetected _ = False"

subsection \<open>Reports\<close>

record reportSummary =
  totalEvents_sum :: nat
  criticalEvents :: nat
  highSeverityEvents :: nat
  uniqueSources :: nat

datatype recommendation =
    CriticalEventsDetected nat
  | HighVolumeOfHighSeverity
  | MultipleInjectionAttempts
  | HighNumberOfAuthFailures

record securityReport =
  summary :: reportSummary
  topThreats :: "(SecurityEventType \<times> nat) list"
  suspiciousSources :: "string list"
  recommendations :: "recommendation list"

definition generateRecommendations :: "SecurityEvent list \<Rightarrow> recommendation list" where
  "generateRecommendations evs =
     (let criticalCount = length (filter (\<lambda>e. severity_ev e = Critical) evs);
          highCount = length (filter (\<lambda>e. severity_ev e = High) evs);
          injectionAttempts =
            length (filter (\<lambda>e. type_ev e = SQL_INJECTION_ATTEMPT \<or> type_ev e = XSS_ATTEMPT) evs);
          authFailures' = length (filter (\<lambda>e. type_ev e = AUTHENTICATION_FAILURE) evs)
      in (if criticalCount > 0 then [CriticalEventsDetected criticalCount] else []) @
         (if highCount > 10 then [HighVolumeOfHighSeverity] else []) @
         (if injectionAttempts > 5 then [MultipleInjectionAttempts] else []) @
         (if authFailures' > 20 then [HighNumberOfAuthFailures] else []))"

definition generateReport :: "int \<Rightarrow> int \<Rightarrow> SecurityMonitor \<Rightarrow> securityReport" where
  "generateReport startTime endTime m =
     (let evs = getEventsInRange startTime endTime m;
          threatCounts = tally (map type_ev evs);
          sourceCounts = tally (map source evs)
      in \<lparr> summary =
             \<lparr> totalEvents_sum = length evs,
               criticalEvents = length (filter (\<lambda>e. severity_ev e = Critical) evs),
               highSeverityEvents = length (filter (\<lambda>e. severity_ev e = High) evs),
               uniqueSources = length (remdups (map source evs)) \<rparr>,
           topThreats = take 10 (sortByCountDesc threatCounts),
           suspiciousSources = map fst (filter (\<lambda>p. snd p > 10) sourceCounts),
           recommendations = generateRecommendations evs \<rparr>)"

section \<open>The rate limiter (advanced-rate-limiter)\<close>

text \<open>
  The options a caller passes; \<open>None\<close> is a property left out. The constructor spreads
  them over its defaults, and \<open>isAllowed\<close> reads the merged options with \<open>||\<close>, for which
  an absent value and 0 are both falsy.
\<close>

record AdvancedRateLimitOptions =
  windowMs :: "int option"
  max_opt :: "int option"
  maxRequests :: "int option"

record RateLimitEntry =
  count :: nat
  resetTime :: int
  violations :: nat

record AdvancedRateLimiter =
  store :: "string \<rightharpoonup> RateLimitEntry"
  config :: AdvancedRateLimitOptions

record rateLimitResult =
  allowed :: bool
  remaining :: int
  resetTime_res :: int
  retryAfter :: "int option"

definition orElse :: "int option \<Rightarrow> int \<Rightarrow> int" where
  "orElse v d = (case v of None \<Rightarrow> d | Some x \<Rightarrow> if x = 0 then d else x)"

definition newAdvancedRateLimiter :: "AdvancedRateLimitOptions \<Rightarrow> AdvancedRateLimiter" where
  "newAdvancedRateLimiter opts =
     \<lparr> store = Map.empty,
       config =
         \<lparr> windowMs = (case windowMs opts of None \<Rightarrow> Some (15 * 60 * 1000) | Some v \<Rightarrow> Some v),
           max_opt = (case max_opt opts of None \<Rightarrow> Some 100 | Some v \<Rightarrow> Some v),
           maxRequests = (case maxRequests opts of None \<Rightarrow> Some 100 | Some v \<Rightarrow> Some v) \<rparr> \<rparr>"

definition limitWindowMs :: "AdvancedRateLimiter \<Rightarrow> int" where
  "limitWindowMs rl = orElse (windowMs (config rl)) (15 * 60 * 1000)"

definition limitMaxRequests :: "AdvancedRateLimiter \<Rightarrow> int" where
  "limitMaxRequests rl = orElse (maxRequests (config rl)) (orElse (max_opt (config rl)) 100)"

text \<open>\<open>Math.ceil(x / 1000)\<close> on an integer \<open>x\<close>.\<close>

definition ceilDiv1000 :: "int \<Rightarrow> int" where
  "ceilDiv1000 x = - ((- x) div 1000)"

definition isAllowed ::
  "int \<Rightarrow> string \<Rightarrow> AdvancedRateLimiter \<Rightarrow> AdvancedRateLimiter \<times> rateLimitResult" where
  "isAllowed now identifier rl =
     (let entry =
            (case store rl identifier of
               None \<Rightarrow> \<lparr> count = 0, resetTime = now + limitWindowMs rl, violations = 0 \<rparr>
             | Some e \<Rightarrow>
                 if now > resetTime e
                 then \<lparr> count = 0, resetTime = now + limitWindowMs rl, violations = violations e \<rparr>
                 else e)
      in if int (count entry) \<ge> limitMaxRequests rl
         then (rl \<lparr> store := (store rl)(identifier \<mapsto> entry \<lparr> violations := Suc (violations entry) \<rparr>) \<rparr>,
               \<lparr> allowed = False, remaining = 0, resetTime_res = resetTime entry,
                 retryAfter = Some (ceilDiv1000 (resetTime entry - now)) \<rparr>)
         else (rl \<lparr> store := (store rl)(identifier \<mapsto> entry \<lparr> count := Suc (count entry) \<rparr>) \<rparr>,
               \<lparr> allowed = True, remaining = limitMaxRequests rl - int (Suc (count entry)),
                 resetTime_res = resetTime entry, retryAfter = None \<rparr>))"

text \<open>Calls for one identifier at the given instants, in order, with their results.\<close>

fun isAllowedAt ::
  "string \<Rightarrow> int list \<Rightarrow> AdvancedRateLimiter \<Rightarrow> AdvancedRateLimiter \<times> rateLimitResult list" where
  "isAllowedAt identifier [] rl = (rl, [])"
| "isAllowedAt identifier (now # later) rl =
     (case isAllowed now identifier rl of
        (rl1, r) \<Rightarrow> (case isAllowedAt identifier later rl1 of (rl2, rs) \<Rightarrow> (rl2, r # rs)))"

section \<open>Auxiliary notions and sample inputs\<close>

text \<open>The count an association list holds for a key, 0 when the key is absent.\<close>

definition countOf :: "('k \<times> nat) list \<Rightarrow> 'k \<Rightarrow> nat" where
  "countOf m k = (case map_of m k of None \<Rightarrow> 0 | Some c \<Rightarrow> c)"

text \<open>Concrete inputs on which the theorems below are instantiated.\<close>

definition noMetadata :: metadata where
  "noMetadata =
     \<lparr> userAgent = None, ip = None, userId = None, sessionId = None, requestId = None \<rparr>"

definition sampleInput :: "SecurityEventType \<Rightarrow> severity \<Rightarrow> string \<Rightarrow> EventInput" where
  "sampleInput t sev src =
     \<lparr> type_in = t, severity_in = sev, source_in = src, details_in = [],
       metadata_in = noMetadata \<rparr>"

definition sampleRecord :: "int \<Rightarrow> SecurityEventType \<Rightarrow> severity \<Rightarrow> string \<Rightarrow> operation" where
  "sampleRecord now t sev src = RecordEvent now (\<lambda>k. ''r'') (sampleInput t sev src)"

definition defaultMonitor :: SecurityMonitor where
  "defaultMonitor =
     newSecurityMonitor \<lparr> maxEventsHistory_cfg = None, threatDetectionRules = None \<rparr>"

definition monitorOfThree :: SecurityMonitor where
  "monitorOfThree =
     newSecurityMonitor \<lparr> maxEventsHistory_cfg = Some 3, threatDetectionRules = None \<rparr>"

definition threeInjections :: "operation list" where
  "threeInjections = replicate 3 (sampleRecord 1000 SQL_INJECTION_ATTEMPT High ''10.0.0.1'')"

definition sampleLog :: SecurityMonitor where
  "sampleLog =
     run [sampleRecord 1000 XSS_ATTEMPT High ''a'',
          sampleRecord 1001 CSRF_TOKEN_MISMATCH Low ''b'',
          sampleRecord 1002 MALFORMED_REQUEST Medium ''c''] defaultMonitor"

text \<open>The number of rule firings a monitor has announced so far.\<close>

definition firings :: "SecurityMonitor \<Rightarrow> nat" where
  "firings m = length (filter isThreatDetected (emitted m))"

text \<open>The sum over all values of \<open>eventsByType\<close>.\<close>

definition typeSum :: "SecurityMetrics \<Rightarrow> nat" where
  "typeSum mt = sum_list (map (eventsByType mt) all_event_types)"

text \<open>Descending order by count, and what every reachable \<open>topSources\<close> satisfies.\<close>

definition sortedByCountDesc :: "('a \<times> nat) list \<Rightarrow> bool" where
  "sortedByCountDesc ps = sorted (map (\<lambda>p. - int (snd p)) ps)"

definition topSourcesInv :: "(string \<times> nat) list \<Rightarrow> bool" where
  "topSourcesInv ts =
     (sortedByCountDesc ts \<and> length ts \<le> 10 \<and> list_all (\<lambda>p. 1 \<le> snd p) ts \<and>
      distinct (map fst ts))"

definition abb :: "operation list" where
  "abb = [sampleRecord 1000 XSS_ATTEMPT High ''a'',
          sampleRecord 1001 XSS_ATTEMPT High ''b'',
          sampleRecord 1002 XSS_ATTEMPT High ''b'']"

definition abba :: "operation list" where
  "abba = abb @ [sampleRecord 1003 XSS_ATTEMPT High ''a'']"

text \<open>
  What one \<open>recordEvent\<close> call does to \<open>topSources\<close>, whatever the number of firings: every
  update of the call is for the source of the recorded event.
\<close>

definition updatedFor :: "string \<Rightarrow> (string \<times> nat) list \<Rightarrow> (string \<times> nat) list \<Rightarrow> bool" where
  "updatedFor s ts0 ts =
     (topSourcesInv ts \<and>
      filter (\<lambda>p. fst p \<noteq> s) ts = filter (\<lambda>p. fst p \<noteq> s) ts0 \<and>
      (\<exists>ts1. topSourcesInv ts1 \<and> ts = updateTopSources s ts1))"

text \<open>Rules a caller might register: one whose condition throws, one that always holds.\<close>

definition faultyRule :: ThreatDetectionRule where
  "faultyRule =
     \<lparr> id_rule = ''faulty'', name = ''Faulty'', description = ''Condition throws'',
       eventTypes = [XSS_ATTEMPT], condition = (\<lambda>now evs. Inl ''boom''),
       action_rule = Log, severity_rule = Low, cooldown = 0 \<rparr>"

definition eagerRule :: ThreatDetectionRule where
  "eagerRule =
     \<lparr> id_rule = ''eager'', name = ''Eager'', description = ''Fires on every event'',
       eventTypes = [XSS_ATTEMPT], condition = (\<lambda>now evs. Inr True),
       action_rule = Alert, severity_rule = High, cooldown = 1000 \<rparr>"

definition echoRule :: ThreatDetectionRule where
  "echoRule =
     \<lparr> id_rule = ''echo'', name = ''Echo'', description = ''Listens for synthetic events'',
       eventTypes = [ANOMALOUS_BEHAVIOR], condition = (\<lambda>now evs. Inr True),
       action_rule = Log, severity_rule = Low, cooldown = 0 \<rparr>"

definition faultyMonitor :: SecurityMonitor where
  "faultyMonitor =
     newSecurityMonitor
       \<lparr> maxEventsHistory_cfg = None, threatDetectionRules = Some [faultyRule, eagerRule] \<rparr>"

definition xssInput :: EventInput where
  "xssInput = sampleInput XSS_ATTEMPT High ''a''"

text \<open>
  What rule evaluation for an event may do to a monitor: invoke conditions of rules that
  listen to the event's type, in registry order and each at most once; append synthetic
  events; emit notifications that name the event; count the synthetic events.
\<close>

definition listens :: "SecurityEvent \<Rightarrow> string \<times> ThreatDetectionRule \<Rightarrow> bool" where
  "listens e p = (type_ev e \<in> set (eventTypes (snd p)))"

fun announcedFor :: "SecurityEvent \<Rightarrow> emission \<Rightarrow> bool" where
  "announcedFor e (SecurityEventEmitted e') = (e' = e)"
| "announcedFor e (ThreatDetected rule triggerEvent threatEvent) =
     (triggerEvent = e \<and> type_ev threatEvent = ANOMALOUS_BEHAVIOR)"
| "announcedFor e (BlockRequest src rule) = (src = source e)"
| "announcedFor e (SecurityAlert rule triggerEvent) = (triggerEvent = e)"

definition ruleEffects ::
  "SecurityEvent \<Rightarrow> (string \<times> ThreatDetectionRule) list \<Rightarrow> SecurityMonitor \<Rightarrow> SecurityMonitor \<Rightarrow> bool" where
  "ruleEffects e rules m m' =
     (\<exists>cs synth es.
        evaluated m' = evaluated m @ cs \<and>
        subseq cs (map fst (filter (listens e) rules)) \<and>
        events m' = events m @ synth \<and>
        list_all (\<lambda>t. type_ev t = ANOMALOUS_BEHAVIOR) synth \<and>
        emitted m' = emitted m @ es \<and>
        list_all (announcedFor e) es \<and>
        length (filter isThreatDetected es) = length synth \<and>
        length synth \<le> length cs \<and>
        totalEvents (metrics m') = totalEvents (metrics m) + length synth)"

text \<open>
  The event \<open>handleThreatDetection\<close> builds for a rule and a trigger, the synthetic
  events that a list of notifications announces, and what a monitor gains between two
  states when every gain is such an event: appended to the log, announced, and passed to
  \<open>updateMetrics\<close>, in this order.
\<close>

definition threatEventOf ::
  "int \<Rightarrow> string \<Rightarrow> ThreatDetectionRule \<Rightarrow> SecurityEvent \<Rightarrow> SecurityEvent" where
  "threatEventOf now rand rule triggerEvent =
     \<lparr> id_ev = EventId now rand,
       timestamp = now,
       type_ev = ANOMALOUS_BEHAVIOR,
       severity_ev = severity_rule rule,
       source = source triggerEvent,
       details = [(''ruleName'', DStr (name rule)),
                  (''ruleDescription'', DStr (description rule)),
                  (''triggerEvent'', DId (id_ev triggerEvent)),
                  (''action'', DAction (action_rule rule))],
       metadata = metadata triggerEvent \<rparr>"

definition synthesizedBy ::
  "int \<Rightarrow> ThreatDetectionRule \<Rightarrow> SecurityEvent \<Rightarrow> SecurityEvent \<Rightarrow> bool" where
  "synthesizedBy now rule triggerEvent threatEvent =
     (case id_ev threatEvent of
        EventId n rand \<Rightarrow> threatEvent = threatEventOf now rand rule triggerEvent)"

fun threatEvents :: "emission list \<Rightarrow> SecurityEvent list" where
  "threatEvents [] = []"
| "threatEvents (ThreatDetected rule triggerEvent threatEvent # es) = threatEvent # threatEvents es"
| "threatEvents (SecurityEventEmitted e # es) = threatEvents es"
| "threatEvents (BlockRequest src rule # es) = threatEvents es"
| "threatEvents (SecurityAlert rule triggerEvent # es) = threatEvents es"

fun threatAnnounced :: "int \<Rightarrow> SecurityEvent \<Rightarrow> emission \<Rightarrow> bool" where
  "threatAnnounced now e (ThreatDetected rule triggerEvent threatEvent) =
     (triggerEvent = e \<and> synthesizedBy now rule e threatEvent)"
| "threatAnnounced now e (SecurityEventEmitted e') = True"
| "threatAnnounced now e (BlockRequest src rule) = True"
| "threatAnnounced now e (SecurityAlert rule triggerEvent) = True"

definition ledger :: "int \<Rightarrow> SecurityEvent \<Rightarrow> SecurityMonitor \<Rightarrow> SecurityMonitor \<Rightarrow> bool" where
  "ledger now e m m' =
     (\<exists>synth es.
        events m' = events m @ synth \<and>
        emitted m' = emitted m @ es \<and>
        threatEvents es = synth \<and>
        list_all (threatAnnounced now e) es \<and>
        metrics m' = fold updateMetrics synth (metrics m))"

definition echoMonitor :: SecurityMonitor where
  "echoMonitor =
     newSecurityMonitor
       \<lparr> maxEventsHistory_cfg = None, threatDetectionRules = Some [eagerRule, echoRule] \<rparr>"

text \<open>
  The firings of one rule, a registry as \<open>addThreatRule\<close> builds it (one entry per id, each
  under its rule's id), and calls that record an event at an instant of a given interval.
\<close>

fun firedBy :: "string \<Rightarrow> emission \<Rightarrow> bool" where
  "firedBy ruleId (ThreatDetected rule triggerEvent threatEvent) = (id_rule rule = ruleId)"
| "firedBy ruleId _ = False"

definition firingsOf :: "string \<Rightarrow> SecurityMonitor \<Rightarrow> nat" where
  "firingsOf ruleId m = length (filter (firedBy ruleId) (emitted m))"

definition registryOk :: "(string \<times> ThreatDetectionRule) list \<Rightarrow> bool" where
  "registryOk rules =
     (distinct (map fst rules) \<and> list_all (\<lambda>p. id_rule (snd p) = fst p) rules)"

fun recordedWithin :: "int \<Rightarrow> int \<Rightarrow> operation \<Rightarrow> bool" where
  "recordedWithin lo hi (RecordEvent now rnd inp) = (lo \<le> now \<and> now < hi)"
| "recordedWithin lo hi _ = False"

definition cooldownMonitor :: SecurityMonitor where
  "cooldownMonitor = run [sampleRecord 5000 XSS_ATTEMPT High ''a''] echoMonitor"

definition quietCalls :: "operation list" where
  "quietCalls = [sampleRecord 5000 XSS_ATTEMPT High ''a'',
                 sampleRecord 5500 XSS_ATTEMPT High ''b'',
                 sampleRecord 5999 XSS_ATTEMPT High ''a'']"

definition impatientRule :: ThreatDetectionRule where
  "impatientRule = eagerRule \<lparr> cooldown := 0 \<rparr>"

definition renamedRule :: ThreatDetectionRule where
  "renamedRule = eagerRule \<lparr> name := ''Eager, second edition'' \<rparr>"

text \<open>A limiter of two requests per second.\<close>

definition sampleLimiter :: AdvancedRateLimiter where
  "sampleLimiter =
     newAdvancedRateLimiter \<lparr> windowMs = Some 1000, max_opt = None, maxRequests = Some 2 \<rparr>"

section \<open>The last events of the log\<close>

lemma slice_from_neg:
  "0 < l \<Longrightarrow> slice_from (- l) xs = drop (length xs - nat (min l (int (length xs)))) xs"
  unfolding slice_from_def Let_def
  by (auto simp: min_def max_def nat_diff_distrib' intro: arg_cong[where f="\<lambda>k. drop k xs"])

lemma slice_from_zero: "slice_from 0 xs = xs"
  by (simp add: slice_from_def)

text \<open>
  Claim C9. \<open>getRecentEvents(0)\<close> returns the whole stored history, since \<open>slice(-0)\<close>
  is \<open>slice(0)\<close>; for every strictly positive limit it returns the last
  \<open>min(limit, length)\<close> events, oldest first.
\<close>

theorem getRecentEvents_limit:
  "getRecentEvents (Some 0) m = events m \<and>
   (0 < limit \<longrightarrow>
      getRecentEvents (Some limit) m =
        drop (length (events m) - nat (min limit (int (length (events m))))) (events m) \<and>
      int (length (getRecentEvents (Some limit) m)) = min limit (int (length (events m))))"
  by (auto simp: getRecentEvents_def slice_from_zero slice_from_neg)

theorem getRecentEvents_limit_witness:
  "getRecentEvents (Some 0) sampleLog = events sampleLog \<and>
   (0::int) < 2 \<and>
   map source (events sampleLog) = [''a'', ''b'', ''c''] \<and>
   map source (getRecentEvents (Some 2) sampleLog) = [''b'', ''c'']"
proof -
  have ev: "map source (events sampleLog) = [''a'', ''b'', ''c'']"
    by code_simp
  then have len: "length (events sampleLog) = 3"
    by (metis length_map length_Cons list.size(3) numeral_3_eq_3)
  have "map source (drop 1 (events sampleLog)) = [''b'', ''c'']"
    using ev by (simp add: drop_map[symmetric] del: drop_map)
  with getRecentEvents_limit[of sampleLog 2] ev len show ?thesis
    by simp
qed

section \<open>Counting by key\<close>

lemma countOf_Nil: "countOf [] k = 0"
  by (simp add: countOf_def)

lemma countOf_countInto:
  "countOf (countInto k m) k' = countOf m k' + (if k = k' then 1 else 0)"
  by (simp add: countOf_def countInto_def update_conv')

lemma countOf_fold_countInto:
  "countOf (fold countInto ks m) k = countOf m k + count_list ks k"
  by (induction ks arbitrary: m) (auto simp: countOf_countInto)

lemma distinct_fold_countInto:
  "distinct (map fst m) \<Longrightarrow> distinct (map fst (fold countInto ks m))"
  by (induction ks arbitrary: m) (auto simp: countInto_def distinct_update)

lemma keys_fold_countInto:
  "fst ` set (fold countInto ks m) = set ks \<union> fst ` set m"
  by (induction ks arbitrary: m) (auto simp: countInto_def dom_update)

lemma tally_entry:
  assumes "(k, c) \<in> set (tally ks)"
  shows "c = count_list ks k"
proof -
  have "distinct (map fst (tally ks))"
    by (simp add: tally_def distinct_fold_countInto)
  with assms have "map_of (tally ks) k = Some c"
    by simp
  then have "countOf (tally ks) k = c"
    by (simp add: countOf_def)
  moreover have "countOf (tally ks) k = count_list ks k"
    by (simp add: tally_def countOf_fold_countInto countOf_Nil)
  ultimately show ?thesis
    by simp
qed

lemma tally_keys: "fst ` set (tally ks) = set ks"
  by (simp add: tally_def keys_fold_countInto)

lemma tally_over:
  "set (map fst (filter (\<lambda>p. snd p > n) (tally ks))) = {k. count_list ks k > n}"
proof (intro set_eqI iffI)
  fix k assume "k \<in> set (map fst (filter (\<lambda>p. snd p > n) (tally ks)))"
  then obtain c where "(k, c) \<in> set (tally ks)" "c > n"
    by auto
  then show "k \<in> {k. count_list ks k > n}"
    using tally_entry by fastforce
next
  fix k assume k: "k \<in> {k. count_list ks k > n}"
  then have "k \<in> set ks"
    by (metis count_list_0_iff mem_Collect_eq not_less0)
  then obtain c where c: "(k, c) \<in> set (tally ks)"
    using tally_keys[of ks] by (metis imageE prod.collapse)
  with k have "c > n"
    using tally_entry by fastforce
  with c show "k \<in> set (map fst (filter (\<lambda>p. snd p > n) (tally ks)))"
    by force
qed

lemma count_list_map_filter:
  "count_list (map f xs) y = length (filter (\<lambda>x. f x = y) xs)"
  by (induction xs) auto

lemma distinct_tally_over:
  "distinct (map fst (filter P (tally ks)))"
  by (simp add: tally_def distinct_fold_countInto distinct_map_filter)

section \<open>Suspicious sources of a report\<close>

text \<open>
  Claim C8. For every event log and every range, the \<open>suspiciousSources\<close> of
  \<open>generateReport(start, end)\<close> are exactly the sources with strictly more than 10 events
  whose timestamps lie in \<open>[start, end]\<close>, bounds included, each listed once; the live
  check \<open>isSuspiciousSource\<close> has another threshold: more than 5 events of severity high
  or critical from the source, later than the cutoff.
\<close>

theorem suspiciousSources_threshold:
  "set (suspiciousSources (generateReport startTime endTime m)) =
     {s. 10 < length (filter (\<lambda>e. source e = s \<and> startTime \<le> timestamp e \<and> timestamp e \<le> endTime)
                        (events m))} \<and>
   distinct (suspiciousSources (generateReport startTime endTime m)) \<and>
   isSuspiciousSource now s timeWindow m =
     (5 < length (filter (\<lambda>e. source e = s \<and>
                              now - (case timeWindow of None \<Rightarrow> 300000 | Some w \<Rightarrow> w) < timestamp e \<and>
                              (severity_ev e = High \<or> severity_ev e = Critical))
                    (events m)))"
proof -
  let ?evs = "getEventsInRange startTime endTime m"
  have "suspiciousSources (generateReport startTime endTime m) =
          map fst (filter (\<lambda>p. snd p > 10) (tally (map source ?evs)))"
    by (simp add: generateReport_def Let_def)
  then have "set (suspiciousSources (generateReport startTime endTime m)) =
          {s. 10 < length (filter (\<lambda>e. source e = s) ?evs)}"
    by (simp only: tally_over count_list_map_filter)
  moreover have "\<And>s. filter (\<lambda>e. source e = s) ?evs =
      filter (\<lambda>e. source e = s \<and> startTime \<le> timestamp e \<and> timestamp e \<le> endTime) (events m)"
    by (auto simp add: getEventsInRange_def intro: filter_cong)
  ultimately have a: "set (suspiciousSources (generateReport startTime endTime m)) =
     {s. 10 < length (filter (\<lambda>e. source e = s \<and> startTime \<le> timestamp e \<and> timestamp e \<le> endTime)
                        (events m))}"
    by simp
  have b: "distinct (suspiciousSources (generateReport startTime endTime m))"
    by (simp add: generateReport_def Let_def distinct_tally_over)
  have c: "isSuspiciousSource now s timeWindow m =
     (5 < length (filter (\<lambda>e. source e = s \<and>
                              now - (case timeWindow of None \<Rightarrow> 300000 | Some w \<Rightarrow> w) < timestamp e \<and>
                              (severity_ev e = High \<or> severity_ev e = Critical))
                    (events m)))"
    by (simp add: isSuspiciousSource_def Let_def)
  from a b c show ?thesis by blast
qed

section \<open>The size of the event history\<close>

text \<open>
  Claim C1, evaluated. A monitor built with \<open>maxEventsHistory = 3\<close> and the default rules
  holds four events after three recorded SQL injection attempts: the third call appends
  the third event (three events, no eviction), the injection rule fires, and
  \<open>handleThreatDetection\<close> appends its synthetic event without the size check that
  \<open>recordEvent\<close> makes.
\<close>

theorem history_exceeds_maxEventsHistory:
  "maxEventsHistory (run threeInjections monitorOfThree) = 3 \<and>
   length (events (run threeInjections monitorOfThree)) = 4 \<and>
   map type_ev (events (run threeInjections monitorOfThree)) =
     [SQL_INJECTION_ATTEMPT, SQL_INJECTION_ATTEMPT, SQL_INJECTION_ATTEMPT, ANOMALOUS_BEHAVIOR]"
  by code_simp

section \<open>Rule evaluation preserves what its steps preserve\<close>

lemma checkRules_preserves:
  assumes ev: "\<And>m ruleId. P m \<Longrightarrow> P (m \<lparr> evaluated := evaluated m @ [ruleId] \<rparr>)"
    and fire: "\<And>m ruleId rule k. P m \<Longrightarrow>
        P (handleThreatDetection now k rule event
            (m \<lparr> lastRuleTrigger := (lastRuleTrigger m)(ruleId \<mapsto> now) \<rparr>))"
    and start: "P m"
  shows "P (fst (checkRules now rnd i event rules m))"
  using start
proof (induction rules arbitrary: i m)
  case Nil
  then show ?case by simp
next
  case (Cons p rest)
  obtain ruleId rule where p: "p = (ruleId, rule)"
    by (cases p)
  let ?m1 = "m \<lparr> evaluated := evaluated m @ [ruleId] \<rparr>"
  have m1: "P ?m1"
    using Cons.prems by (rule ev)
  have fired: "P (handleThreatDetection now (rnd (Suc i)) rule event
            (?m1 \<lparr> lastRuleTrigger := (lastRuleTrigger ?m1)(ruleId \<mapsto> now) \<rparr>))"
    using m1 by (rule fire)
  show ?case
    using Cons.IH[OF Cons.prems] Cons.IH[OF m1] Cons.IH[OF fired] m1
    by (simp add: p Let_def split: sum.split bool.split)
qed

section \<open>Totals of the metrics\<close>

lemma typeSum_update:
  "sum_list (map (f(t := Suc (f t))) all_event_types) = Suc (sum_list (map f all_event_types))"
  by (cases t) (simp_all add: all_event_types_def)

lemma totalEvents_updateMetrics: "totalEvents (updateMetrics e mt) = Suc (totalEvents mt)"
  by (simp add: updateMetrics_def Let_def)

lemma typeSum_updateMetrics: "typeSum (updateMetrics e mt) = Suc (typeSum mt)"
  by (simp add: updateMetrics_def Let_def typeSum_def typeSum_update)

lemma firings_handleThreatDetection:
  "firings (handleThreatDetection now k rule event m) = Suc (firings m)"
  by (cases "action_rule rule") (simp_all add: handleThreatDetection_def Let_def firings_def)

lemma metrics_handleThreatDetection:
  "\<exists>e. metrics (handleThreatDetection now k rule event m) = updateMetrics e (metrics m)"
  by (auto simp add: handleThreatDetection_def Let_def)

lemma checkRules_totalEvents:
  "totalEvents (metrics (fst (checkRules now rnd i event rules m))) + firings m =
   totalEvents (metrics m) + firings (fst (checkRules now rnd i event rules m))"
proof (rule checkRules_preserves[where P="\<lambda>m'. totalEvents (metrics m') + firings m =
   totalEvents (metrics m) + firings m'"])
  fix m' :: SecurityMonitor and ruleId
  assume "totalEvents (metrics m') + firings m = totalEvents (metrics m) + firings m'"
  then show "totalEvents (metrics (m' \<lparr> evaluated := evaluated m' @ [ruleId] \<rparr>)) + firings m =
     totalEvents (metrics m) + firings (m' \<lparr> evaluated := evaluated m' @ [ruleId] \<rparr>)"
    by (simp add: firings_def)
next
  fix m' :: SecurityMonitor and ruleId rule k
  assume a: "totalEvents (metrics m') + firings m = totalEvents (metrics m) + firings m'"
  let ?m = "m' \<lparr> lastRuleTrigger := (lastRuleTrigger m')(ruleId \<mapsto> now) \<rparr>"
  obtain e where e: "metrics (handleThreatDetection now k rule event ?m) = updateMetrics e (metrics ?m)"
    using metrics_handleThreatDetection by blast
  have "firings ?m = firings m'"
    by (simp add: firings_def)
  with a e show "totalEvents (metrics (handleThreatDetection now k rule event ?m)) + firings m =
      totalEvents (metrics m) + firings (handleThreatDetection now k rule event ?m)"
    by (simp add: totalEvents_updateMetrics firings_handleThreatDetection)
qed simp

lemma checkRules_typeSum:
  "typeSum (metrics m) = totalEvents (metrics m) \<Longrightarrow>
   typeSum (metrics (fst (checkRules now rnd i event rules m))) =
   totalEvents (metrics (fst (checkRules now rnd i event rules m)))"
proof (rule checkRules_preserves[where P="\<lambda>m'. typeSum (metrics m') = totalEvents (metrics m')"])
  fix m' :: SecurityMonitor and ruleId rule k
  assume a: "typeSum (metrics m') = totalEvents (metrics m')"
  let ?m = "m' \<lparr> lastRuleTrigger := (lastRuleTrigger m')(ruleId \<mapsto> now) \<rparr>"
  obtain e where e: "metrics (handleThreatDetection now k rule event ?m) = updateMetrics e (metrics ?m)"
    using metrics_handleThreatDetection by blast
  with a show "typeSum (metrics (handleThreatDetection now k rule event ?m)) =
      totalEvents (metrics (handleThreatDetection now k rule event ?m))"
    by (simp add: totalEvents_updateMetrics typeSum_updateMetrics)
qed simp_all

lemma recordEvent_fst:
  "fst (recordEvent now rnd inp m) =
     (let e = fullEvent now rnd inp; r = checkThreatRules now rnd e (appendEvent e m)
      in case snd r of
           Some x \<Rightarrow> fst r
         | None \<Rightarrow> (fst r) \<lparr> emitted := emitted (fst r) @ [SecurityEventEmitted e] \<rparr>)"
  by (simp add: recordEvent_def Let_def split: prod.split option.split)

lemma recordEvent_totalEvents:
  "totalEvents (metrics (fst (recordEvent now rnd inp m))) + firings m =
   Suc (totalEvents (metrics m)) + firings (fst (recordEvent now rnd inp m))"
proof -
  let ?e = "fullEvent now rnd inp"
  let ?a = "appendEvent ?e m"
  have "totalEvents (metrics ?a) = Suc (totalEvents (metrics m))" "firings ?a = firings m"
    by (simp_all add: appendEvent_def Let_def totalEvents_updateMetrics firings_def)
  with checkRules_totalEvents[of now rnd 0 ?e "threatRules ?a" ?a]
  show ?thesis
    by (simp add: recordEvent_fst Let_def checkThreatRules_def firings_def split: option.split)
qed

lemma recordEvent_typeSum:
  assumes "typeSum (metrics m) = totalEvents (metrics m)"
  shows "typeSum (metrics (fst (recordEvent now rnd inp m))) =
         totalEvents (metrics (fst (recordEvent now rnd inp m)))"
proof -
  let ?e = "fullEvent now rnd inp"
  let ?a = "appendEvent ?e m"
  have "typeSum (metrics ?a) = totalEvents (metrics ?a)"
    using assms by (simp add: appendEvent_def Let_def totalEvents_updateMetrics typeSum_updateMetrics)
  from checkRules_typeSum[OF this, of now rnd 0 ?e "threatRules ?a"]
  show ?thesis
    by (simp add: recordEvent_fst Let_def checkThreatRules_def split: option.split)
qed

lemma metrics_addThreatRules: "metrics (addThreatRules rules m) = metrics m"
  unfolding addThreatRules_def
  by (induction rules arbitrary: m) (simp_all add: addThreatRule_def)

lemma emitted_addThreatRules: "emitted (addThreatRules rules m) = emitted m"
  unfolding addThreatRules_def
  by (induction rules arbitrary: m) (simp_all add: addThreatRule_def)

lemma metrics_newSecurityMonitor: "metrics (newSecurityMonitor cfg) = initializeMetrics"
  by (simp add: newSecurityMonitor_def Let_def loadDefaultThreatRules_def metrics_addThreatRules
      split: option.split)

lemma emitted_newSecurityMonitor: "emitted (newSecurityMonitor cfg) = []"
  by (simp add: newSecurityMonitor_def Let_def loadDefaultThreatRules_def emitted_addThreatRules
      split: option.split)

lemma run_records_totalEvents:
  "list_all isRecordEvent ops \<Longrightarrow>
   totalEvents (metrics (run ops m)) + firings m =
   totalEvents (metrics m) + length ops + firings (run ops m)"
proof (induction ops arbitrary: m)
  case Nil
  then show ?case by (simp add: run_def)
next
  case (Cons op ops)
  then obtain now rnd inp where op: "op = RecordEvent now rnd inp"
    by (cases op) auto
  from Cons have "totalEvents (metrics (run ops (step op m))) + firings (step op m) =
     totalEvents (metrics (step op m)) + length ops + firings (run ops (step op m))"
    by simp
  moreover have "run (op # ops) m = run ops (step op m)"
    by (simp add: run_def)
  ultimately show ?case
    using recordEvent_totalEvents[of now rnd inp m] by (simp add: op)
qed

lemma step_typeSum:
  assumes "typeSum (metrics m) = totalEvents (metrics m)"
  shows "typeSum (metrics (step op m)) = totalEvents (metrics (step op m))"
proof (cases op)
  case (RecordEvent now rnd inp)
  then show ?thesis
    using recordEvent_typeSum[OF assms, of now rnd inp] by simp
qed (use assms in \<open>simp_all add: addThreatRule_def removeThreatRule_def clear_def
       initializeMetrics_def typeSum_def\<close>)

lemma run_typeSum:
  "typeSum (metrics m) = totalEvents (metrics m) \<Longrightarrow>
   typeSum (metrics (run ops m)) = totalEvents (metrics (run ops m))"
  unfolding run_def
  by (induction ops arbitrary: m) (simp_all add: step_typeSum)

text \<open>
  Claim C2, as the code has it. From a fresh monitor and for every sequence of
  \<open>recordEvent\<close> calls, \<open>totalEvents\<close> is the number of calls plus the number of rule
  firings (each firing appends a synthetic event, which \<open>updateMetrics\<close> counts like any
  other), and the values of \<open>eventsByType\<close> sum to \<open>totalEvents\<close>.
\<close>

theorem totalEvents_counts_synthetic_events:
  assumes "list_all isRecordEvent ops"
  shows "totalEvents (getMetrics (run ops (newSecurityMonitor cfg))) =
           length ops + length (filter isThreatDetected (emitted (run ops (newSecurityMonitor cfg)))) \<and>
         sum_list (map (eventsByType (getMetrics (run ops (newSecurityMonitor cfg)))) all_event_types) =
           totalEvents (getMetrics (run ops (newSecurityMonitor cfg)))"
proof -
  let ?m0 = "newSecurityMonitor cfg"
  have z: "totalEvents (metrics ?m0) = 0" "firings ?m0 = 0" "typeSum (metrics ?m0) = 0"
    by (simp_all add: metrics_newSecurityMonitor emitted_newSecurityMonitor initializeMetrics_def
        firings_def typeSum_def)
  from run_records_totalEvents[OF assms, of ?m0] z
  have "totalEvents (metrics (run ops ?m0)) = length ops + firings (run ops ?m0)"
    by simp
  moreover have "typeSum (metrics (run ops ?m0)) = totalEvents (metrics (run ops ?m0))"
    by (rule run_typeSum) (simp add: z)
  ultimately show ?thesis
    by (simp add: getMetrics_def firings_def typeSum_def)
qed

theorem totalEvents_counts_synthetic_events_witness:
  "list_all isRecordEvent threeInjections \<and>
   length threeInjections = 3 \<and>
   length (filter isThreatDetected (emitted (run threeInjections defaultMonitor))) = 1 \<and>
   totalEvents (getMetrics (run threeInjections defaultMonitor)) = 4 \<and>
   sum_list (map (eventsByType (getMetrics (run threeInjections defaultMonitor))) all_event_types) = 4"
proof -
  have h: "list_all isRecordEvent threeInjections"
    by code_simp
  have l: "length threeInjections = 3"
    by code_simp
  have f: "length (filter isThreatDetected (emitted (run threeInjections defaultMonitor))) = 1"
    by code_simp
  from totalEvents_counts_synthetic_events[OF h, of "\<lparr> maxEventsHistory_cfg = None, threatDetectionRules = None \<rparr>"]
  show ?thesis
    using h l f by (simp add: defaultMonitor_def)
qed

text \<open>
  Claim C2 as stated fails: after three calls on a monitor with the default rules the
  injection rule has fired once and \<open>totalEvents\<close> is 4.
\<close>

theorem totalEvents_exceeds_calls:
  "list_all isRecordEvent threeInjections \<and>
   length threeInjections = 3 \<and>
   totalEvents (getMetrics (run threeInjections defaultMonitor)) = 4"
  by code_simp

section \<open>The top sources\<close>

lemma distinct_map_insort_key:
  "distinct (map g (insort_key f x xs)) = (g x \<notin> g ` set xs \<and> distinct (map g xs))"
  by (induction xs) (auto simp: set_insort_key)

lemma distinct_map_sort_key: "distinct (map g (sort_key f xs)) = distinct (map g xs)"
  by (induction xs) (auto simp: distinct_map_insort_key)

lemma incFirst_split:
  "s \<in> fst ` set ts \<Longrightarrow>
   \<exists>pre c post. ts = pre @ (s, c) # post \<and> s \<notin> fst ` set pre \<and>
      incFirst s ts = pre @ (s, Suc c) # post"
proof (induction ts)
  case Nil
  then show ?case by simp
next
  case (Cons p ts)
  show ?case
  proof (cases "fst p = s")
    case True
    then have "p # ts = [] @ (s, snd p) # ts \<and> s \<notin> fst ` set [] \<and>
        incFirst s (p # ts) = [] @ (s, Suc (snd p)) # ts"
      by auto
    then show ?thesis by blast
  next
    case False
    with Cons.prems have "s \<in> fst ` set ts" by auto
    from Cons.IH[OF this] obtain pre c post where
      "ts = pre @ (s, c) # post" "s \<notin> fst ` set pre" "incFirst s ts = pre @ (s, Suc c) # post"
      by blast
    with False have "p # ts = (p # pre) @ (s, c) # post \<and> s \<notin> fst ` set (p # pre) \<and>
        incFirst s (p # ts) = (p # pre) @ (s, Suc c) # post"
      by auto
    then show ?thesis by blast
  qed
qed

lemma filter_without_key:
  "s \<notin> fst ` set xs \<Longrightarrow> filter (\<lambda>p. P p \<and> fst p \<noteq> s) xs = filter P xs"
  by (induction xs) auto

lemma filter_other_keys: "s \<notin> fst ` set xs \<Longrightarrow> filter (\<lambda>p. fst p \<noteq> s) xs = xs"
  by (induction xs) auto

lemma take10_snoc:
  "length ts \<le> 10 \<Longrightarrow> take 10 (ts @ [x]) = (if length ts = 10 then ts else ts @ [x])"
  by auto

lemma updateTopSources_absent:
  assumes "topSourcesInv ts" "s \<notin> fst ` set ts"
  shows "updateTopSources s ts = (if length ts = 10 then ts else ts @ [(s, 1)])"
proof -
  have "find (\<lambda>p. fst p = s) ts = None"
    using assms(2) by (force simp: find_None_iff)
  moreover have "sorted (map (\<lambda>p. - int (snd p)) (ts @ [(s, 1)]))"
    using assms(1) by (auto simp: topSourcesInv_def sortedByCountDesc_def sorted_append list_all_iff)
  moreover have "length ts \<le> 10"
    using assms(1) by (simp add: topSourcesInv_def)
  ultimately show ?thesis
    by (simp only: updateTopSources_def sortByCountDesc_def sort_key_id_if_sorted take10_snoc
        option.case)
qed

lemma updateTopSources_present:
  assumes "topSourcesInv ts" "s \<in> fst ` set ts"
  shows "updateTopSources s ts = sort_key (\<lambda>p. - int (snd p)) (incFirst s ts)"
proof -
  obtain p where "find (\<lambda>p. fst p = s) ts = Some p"
    using assms(2) by (cases "find (\<lambda>p. fst p = s) ts") (auto simp: find_None_iff)
  moreover have "length (incFirst s ts) = length ts"
    by (induction ts) auto
  ultimately show ?thesis
    using assms(1) by (simp add: updateTopSources_def sortByCountDesc_def topSourcesInv_def)
qed

lemma map_fst_incFirst: "map fst (incFirst s ts) = map fst ts"
  by (induction ts) auto

lemma counts_incFirst: "list_all (\<lambda>p. 1 \<le> snd p) ts \<Longrightarrow> list_all (\<lambda>p. 1 \<le> snd p) (incFirst s ts)"
  by (induction ts) auto

lemma filter_other_incFirst: "filter (\<lambda>p. fst p \<noteq> s) (incFirst s ts) = filter (\<lambda>p. fst p \<noteq> s) ts"
  by (induction ts) auto

lemma topSourcesInv_update:
  assumes "topSourcesInv ts"
  shows "topSourcesInv (updateTopSources s ts)"
proof (cases "s \<in> fst ` set ts")
  case True
  let ?f = "\<lambda>p::string \<times> nat. - int (snd p)"
  have "length (incFirst s ts) = length ts"
    by (induction ts) auto
  moreover have "distinct (map fst (sort_key ?f (incFirst s ts)))"
    using assms by (simp add: distinct_map_sort_key map_fst_incFirst topSourcesInv_def)
  moreover have "list_all (\<lambda>p. 1 \<le> snd p) (sort_key ?f (incFirst s ts))"
    using counts_incFirst[of ts s] assms by (simp add: list_all_iff topSourcesInv_def)
  ultimately show ?thesis
    using assms
    by (simp add: updateTopSources_present[OF assms True] topSourcesInv_def sortedByCountDesc_def)
next
  case False
  have "sorted (map (\<lambda>p. - int (snd p)) (ts @ [(s, 1)]))"
    using assms by (auto simp: topSourcesInv_def sortedByCountDesc_def sorted_append list_all_iff)
  then show ?thesis
    using assms False
    by (auto simp: updateTopSources_absent[OF assms False] topSourcesInv_def sortedByCountDesc_def)
qed

lemma updateTopSources_others:
  assumes "topSourcesInv ts"
  shows "filter (\<lambda>p. fst p \<noteq> s) (updateTopSources s ts) = filter (\<lambda>p. fst p \<noteq> s) ts"
proof (cases "s \<in> fst ` set ts")
  case True
  have "sorted (map (\<lambda>p. - int (snd p)) (filter (\<lambda>p. fst p \<noteq> s) ts))"
    using assms by (simp add: topSourcesInv_def sortedByCountDesc_def sorted_filter)
  then show ?thesis
    by (simp add: updateTopSources_present[OF assms True] filter_sort filter_other_incFirst
        sort_key_id_if_sorted)
next
  case False
  then show ?thesis
    by (simp add: updateTopSources_absent[OF assms False])
qed

lemma updateTopSources_last_of_ties:
  assumes inv: "topSourcesInv ts" and mem: "(s, c) \<in> set (updateTopSources s ts)"
  shows "filter (\<lambda>p. snd p = c) (updateTopSources s ts) =
         filter (\<lambda>p. snd p = c \<and> fst p \<noteq> s) (updateTopSources s ts) @ [(s, c)]"
proof (cases "s \<in> fst ` set ts")
  case True
  let ?f = "\<lambda>p::string \<times> nat. - int (snd p)"
  let ?ts' = "sort_key ?f (incFirst s ts)"
  have upd: "updateTopSources s ts = ?ts'"
    by (rule updateTopSources_present[OF inv True])
  from incFirst_split[OF True] obtain pre c0 post where
    ts: "ts = pre @ (s, c0) # post" and pre: "s \<notin> fst ` set pre"
    and inc: "incFirst s ts = pre @ (s, Suc c0) # post"
    by blast
  have post: "s \<notin> fst ` set post"
    using inv ts by (auto simp: topSourcesInv_def)
  have "(s, c) \<in> set (incFirst s ts)"
    using mem by (simp add: upd)
  then have c: "c = Suc c0"
    using pre post by (force simp: inc)
  have post_small: "\<forall>p \<in> set post. snd p \<le> c0"
    using inv by (auto simp: topSourcesInv_def sortedByCountDesc_def ts sorted_append)
  have key: "(\<lambda>p::string \<times> nat. snd p = c) = (\<lambda>p. ?f p = - int c)"
    by auto
  have "filter (\<lambda>p. snd p = c) ?ts' = filter (\<lambda>p. snd p = c) (incFirst s ts)"
    unfolding key by (rule sort_key_stable)
  also have "\<dots> = filter (\<lambda>p. snd p = c) pre @ [(s, c)] @ filter (\<lambda>p. snd p = c) post"
    by (simp add: inc c)
  also have "filter (\<lambda>p. snd p = c) post = []"
    using post_small c by (auto simp: filter_empty_conv)
  finally have all: "filter (\<lambda>p. snd p = c) ?ts' = filter (\<lambda>p. snd p = c) pre @ [(s, c)]"
    by simp
  have "filter (\<lambda>p. snd p = c \<and> fst p \<noteq> s) ?ts' =
        filter (\<lambda>p. fst p \<noteq> s) (filter (\<lambda>p. snd p = c) ?ts')"
    by (simp add: conj_commute)
  also have "\<dots> = filter (\<lambda>p. fst p \<noteq> s) (filter (\<lambda>p. snd p = c) pre)"
    by (simp add: all)
  also have "\<dots> = filter (\<lambda>p. snd p = c) pre"
    using pre by (simp add: filter_without_key conj_commute)
  finally show ?thesis
    by (simp add: upd all)
next
  case False
  have upd: "updateTopSources s ts = (if length ts = 10 then ts else ts @ [(s, 1)])"
    by (rule updateTopSources_absent[OF inv False])
  have notin: "(s, c) \<notin> set ts"
    using False by force
  with mem have full: "updateTopSources s ts = ts @ [(s, 1)]" and c: "c = 1"
    by (auto simp: upd split: if_splits)
  have "filter (\<lambda>p. snd p = c \<and> fst p \<noteq> s) ts = filter (\<lambda>p. snd p = c) ts"
    using False by (rule filter_without_key)
  then show ?thesis
    by (simp add: full c)
qed


lemma topSources_updateMetrics:
  "topSources (updateMetrics e mt) = updateTopSources (source e) (topSources mt)"
  by (simp add: updateMetrics_def Let_def)

lemma topSources_handleThreatDetection:
  "topSources (metrics (handleThreatDetection now k rule event m)) =
     updateTopSources (source event) (topSources (metrics m))"
  by (simp add: handleThreatDetection_def Let_def topSources_updateMetrics)

lemma topSources_appendEvent:
  "topSources (metrics (appendEvent e m)) = updateTopSources (source e) (topSources (metrics m))"
  by (simp add: appendEvent_def Let_def topSources_updateMetrics)

lemma updatedFor_first:
  "topSourcesInv ts0 \<Longrightarrow> updatedFor s ts0 (updateTopSources s ts0)"
  unfolding updatedFor_def
  using topSourcesInv_update updateTopSources_others by blast

lemma updatedFor_again:
  "updatedFor s ts0 ts \<Longrightarrow> updatedFor s ts0 (updateTopSources s ts)"
  unfolding updatedFor_def
  using topSourcesInv_update updateTopSources_others by metis

lemma checkRules_updatedFor:
  assumes "updatedFor (source event) ts0 (topSources (metrics m))"
  shows "updatedFor (source event) ts0
           (topSources (metrics (fst (checkRules now rnd i event rules m))))"
proof (rule checkRules_preserves[where
      P="\<lambda>m'. updatedFor (source event) ts0 (topSources (metrics m'))"])
  fix m' :: SecurityMonitor and ruleId rule k
  assume "updatedFor (source event) ts0 (topSources (metrics m'))"
  then show "updatedFor (source event) ts0
      (topSources (metrics (handleThreatDetection now k rule event
         (m' \<lparr> lastRuleTrigger := (lastRuleTrigger m')(ruleId \<mapsto> now) \<rparr>))))"
    by (simp add: topSources_handleThreatDetection updatedFor_again)
qed (simp_all add: assms)

lemma recordEvent_updatedFor:
  assumes "topSourcesInv (topSources (metrics m))"
  shows "updatedFor (source_in inp) (topSources (metrics m))
           (topSources (metrics (fst (recordEvent now rnd inp m))))"
proof -
  let ?e = "fullEvent now rnd inp"
  have s: "source ?e = source_in inp"
    by (simp add: fullEvent_def)
  have "updatedFor (source ?e) (topSources (metrics m)) (topSources (metrics (appendEvent ?e m)))"
    using assms by (simp add: topSources_appendEvent updatedFor_first)
  from checkRules_updatedFor[OF this, of now rnd 0 "threatRules (appendEvent ?e m)"]
  show ?thesis
    by (simp add: recordEvent_fst Let_def checkThreatRules_def s split: option.split)
qed

lemma step_topSourcesInv:
  assumes "topSourcesInv (topSources (metrics m))"
  shows "topSourcesInv (topSources (metrics (step op m)))"
proof (cases op)
  case (RecordEvent now rnd inp)
  then show ?thesis
    using recordEvent_updatedFor[OF assms, of inp now rnd] by (simp add: updatedFor_def)
next
  case Clear
  then show ?thesis
    by (simp add: clear_def initializeMetrics_def topSourcesInv_def sortedByCountDesc_def)
qed (use assms in \<open>simp_all add: addThreatRule_def removeThreatRule_def\<close>)

lemma run_topSourcesInv:
  "topSourcesInv (topSources (metrics m)) \<Longrightarrow> topSourcesInv (topSources (metrics (run ops m)))"
  unfolding run_def
  by (induction ops arbitrary: m) (simp_all add: step_topSourcesInv)

lemma newSecurityMonitor_topSourcesInv:
  "topSourcesInv (topSources (metrics (newSecurityMonitor cfg)))"
  by (simp add: metrics_newSecurityMonitor initializeMetrics_def topSourcesInv_def
      sortedByCountDesc_def)

text \<open>
  Claim C6, as the code has it. After every sequence of calls \<open>topSources\<close> lists at
  most 10 distinct sources in descending order of count. Ties are not ordered by first
  appearance in the event stream: the sort is stable, so one more \<open>recordEvent\<close> leaves
  the other sources in the order they had, and the source it counts, if listed, comes
  last among the sources with the same count.
\<close>

theorem topSources_sorted_stable:
  assumes "m = run ops (newSecurityMonitor cfg)"
    and "m' = fst (recordEvent now rnd inp m)"
  shows "length (topSources (getMetrics m)) \<le> 10 \<and>
         sortedByCountDesc (topSources (getMetrics m)) \<and>
         distinct (map fst (topSources (getMetrics m))) \<and>
         filter (\<lambda>p. fst p \<noteq> source_in inp) (topSources (getMetrics m')) =
           filter (\<lambda>p. fst p \<noteq> source_in inp) (topSources (getMetrics m)) \<and>
         (\<forall>c. (source_in inp, c) \<in> set (topSources (getMetrics m')) \<longrightarrow>
            filter (\<lambda>p. snd p = c) (topSources (getMetrics m')) =
              filter (\<lambda>p. snd p = c \<and> fst p \<noteq> source_in inp) (topSources (getMetrics m')) @
              [(source_in inp, c)])"
proof -
  have inv: "topSourcesInv (topSources (metrics m))"
    unfolding assms(1) by (rule run_topSourcesInv) (rule newSecurityMonitor_topSourcesInv)
  have upd: "updatedFor (source_in inp) (topSources (metrics m)) (topSources (metrics m'))"
    unfolding assms(2) by (rule recordEvent_updatedFor[OF inv])
  then obtain ts1 where ts1: "topSourcesInv ts1"
      "topSources (metrics m') = updateTopSources (source_in inp) ts1"
    unfolding updatedFor_def by blast
  have ties: "\<forall>c. (source_in inp, c) \<in> set (topSources (metrics m')) \<longrightarrow>
            filter (\<lambda>p. snd p = c) (topSources (metrics m')) =
              filter (\<lambda>p. snd p = c \<and> fst p \<noteq> source_in inp) (topSources (metrics m')) @
              [(source_in inp, c)]"
    unfolding ts1(2) using updateTopSources_last_of_ties[OF ts1(1)] by blast
  from inv upd ties show ?thesis
    by (simp add: getMetrics_def topSourcesInv_def updatedFor_def)
qed

theorem topSources_sorted_stable_witness:
  "topSources (getMetrics (run abb defaultMonitor)) = [(''b'', 2), (''a'', 1)] \<and>
   topSources (getMetrics (run abba defaultMonitor)) = [(''b'', 2), (''a'', 2)] \<and>
   sortedByCountDesc (topSources (getMetrics (run abb defaultMonitor))) \<and>
   (''a'', 2) \<in> set (topSources (getMetrics (run abba defaultMonitor))) \<and>
   filter (\<lambda>p. snd p = 2) (topSources (getMetrics (run abba defaultMonitor))) =
     filter (\<lambda>p. snd p = 2 \<and> fst p \<noteq> ''a'') (topSources (getMetrics (run abba defaultMonitor))) @
     [(''a'', 2)]"
proof -
  have a: "topSources (getMetrics (run abb defaultMonitor)) = [(''b'', 2), (''a'', 1)]"
    by code_simp
  have b: "topSources (getMetrics (run abba defaultMonitor)) = [(''b'', 2), (''a'', 2)]"
    by code_simp
  have r: "run abba defaultMonitor =
      fst (recordEvent 1003 (\<lambda>k. ''r'') (sampleInput XSS_ATTEMPT High ''a'') (run abb defaultMonitor))"
    by (simp add: abba_def run_def sampleRecord_def)
  have s: "source_in (sampleInput XSS_ATTEMPT High ''a'') = ''a''"
    by (simp add: sampleInput_def)
  from topSources_sorted_stable[OF defaultMonitor_def[THEN arg_cong[where f="run abb"]] r]
  show ?thesis
    unfolding s using a b by simp
qed

text \<open>
  Claim C6 as stated fails: source \<open>a\<close> is seen first and ends with the same count as
  source \<open>b\<close>, yet \<open>b\<close> is listed first.
\<close>

theorem topSources_tie_not_first_seen:
  "map source (events (run abba defaultMonitor)) = [''a'', ''b'', ''b'', ''a''] \<and>
   topSources (getMetrics (run abba defaultMonitor)) = [(''b'', 2), (''a'', 2)]"
  by code_simp

section \<open>A condition that throws\<close>

lemma checkRules_append:
  "checkRules now rnd i event (pre @ rest) m =
     (case checkRules now rnd i event pre m of
        (m', Some x) \<Rightarrow> (m', Some x)
      | (m', None) \<Rightarrow> checkRules now rnd (i + length pre) event rest m')"
proof (induction pre arbitrary: i m)
  case Nil
  then show ?case by simp
next
  case (Cons p pre)
  obtain ruleId rule where p: "p = (ruleId, rule)"
    by (cases p)
  show ?case
    by (simp add: p Cons.IH Let_def split: sum.split bool.split prod.split option.split)
qed

lemma checkRules_throwing:
  assumes "type_ev event \<in> set (eventTypes rule)"
    and "\<not> inCooldown now rule (lastRuleTrigger m ruleId)"
    and "condition rule now (events m) = Inl x"
  shows "checkRules now rnd i event ((ruleId, rule) # post) m =
           (m \<lparr> evaluated := evaluated m @ [ruleId] \<rparr>, Some x)"
  using assms by (simp add: Let_def)

lemma appendEvent_keeps_event:
  assumes "1 \<le> maxEventsHistory m"
  shows "e \<in> set (events (appendEvent e m))"
proof (cases "events m")
  case Nil
  with assms show ?thesis by (simp add: appendEvent_def Let_def)
next
  case (Cons a list)
  then show ?thesis by (simp add: appendEvent_def Let_def)
qed

lemma checkRules_events_grow:
  "set (events m) \<subseteq> set (events (fst (checkRules now rnd i event rules m)))"
proof (rule checkRules_preserves[where P="\<lambda>m'. set (events m) \<subseteq> set (events m')"])
  fix m' :: SecurityMonitor and ruleId rule k
  assume "set (events m) \<subseteq> set (events m')"
  then show "set (events m) \<subseteq> set (events (handleThreatDetection now k rule event
      (m' \<lparr> lastRuleTrigger := (lastRuleTrigger m')(ruleId \<mapsto> now) \<rparr>)))"
    by (auto simp: handleThreatDetection_def Let_def)
qed simp_all

text \<open>
  Claim C3, as the code has it. \<open>checkThreatRules\<close> has no handler around the call of a
  condition. When the rules registered before a rule were evaluated without an exception
  and that rule's condition throws, the exception reaches the caller of \<open>recordEvent\<close>;
  the monitor is left as the earlier rules left it: the recorded event is in the log (for a
  positive \<open>maxEventsHistory\<close>) and counted, the earlier firings stand, the rules
  registered after the faulty one are not evaluated, and nothing is recorded or emitted
  for the failure.
\<close>

theorem condition_exception_propagates:
  assumes "e = fullEvent now rnd inp"
    and "threatRules m = pre @ (ruleId, rule) # post"
    and "checkRules now rnd 0 e pre (appendEvent e m) = (m1, None)"
    and "type_ev e \<in> set (eventTypes rule)"
    and "\<not> inCooldown now rule (lastRuleTrigger m1 ruleId)"
    and "condition rule now (events m1) = Inl x"
  shows "recordEvent now rnd inp m = (m1 \<lparr> evaluated := evaluated m1 @ [ruleId] \<rparr>, Inl x) \<and>
         (1 \<le> maxEventsHistory m \<longrightarrow> e \<in> set (events m1)) \<and>
         totalEvents (metrics m1) + firings m = Suc (totalEvents (metrics m)) + firings m1"
proof -
  have rules: "threatRules (appendEvent e m) = pre @ (ruleId, rule) # post"
    using assms(2) by (simp add: appendEvent_def Let_def)
  have "checkThreatRules now rnd e (appendEvent e m) =
          (m1 \<lparr> evaluated := evaluated m1 @ [ruleId] \<rparr>, Some x)"
    unfolding checkThreatRules_def rules checkRules_append assms(3)
    using checkRules_throwing[OF assms(4,5,6)] by simp
  then have a: "recordEvent now rnd inp m = (m1 \<lparr> evaluated := evaluated m1 @ [ruleId] \<rparr>, Inl x)"
    by (simp add: recordEvent_def assms(1)[symmetric])
  have m1: "m1 = fst (checkRules now rnd 0 e pre (appendEvent e m))"
    by (simp add: assms(3))
  have b: "1 \<le> maxEventsHistory m \<longrightarrow> e \<in> set (events m1)"
    unfolding m1 using appendEvent_keeps_event checkRules_events_grow by blast
  have "totalEvents (metrics (appendEvent e m)) = Suc (totalEvents (metrics m))"
       "firings (appendEvent e m) = firings m"
    by (simp_all add: appendEvent_def Let_def totalEvents_updateMetrics firings_def)
  with checkRules_totalEvents[of now rnd 0 e pre "appendEvent e m"]
  have c: "totalEvents (metrics m1) + firings m = Suc (totalEvents (metrics m)) + firings m1"
    by (simp add: m1)
  from a b c show ?thesis by blast
qed


lemma threatRules_faultyMonitor:
  "threatRules faultyMonitor =
     map (\<lambda>r. (id_rule r, r)) defaultRules @ (''faulty'', faultyRule) # [(''eager'', eagerRule)]"
  by (simp add: faultyMonitor_def newSecurityMonitor_def loadDefaultThreatRules_def
      addThreatRules_def addThreatRule_def defaultRules_def faultyRule_def eagerRule_def)

theorem condition_exception_propagates_witness:
  "snd (recordEvent 1000 (\<lambda>k. ''r'') xssInput faultyMonitor) = Inl ''boom'' \<and>
   evaluated (fst (recordEvent 1000 (\<lambda>k. ''r'') xssInput faultyMonitor)) = [''faulty''] \<and>
   fullEvent 1000 (\<lambda>k. ''r'') xssInput
     \<in> set (events (fst (recordEvent 1000 (\<lambda>k. ''r'') xssInput faultyMonitor)))"
proof -
  let ?rnd = "\<lambda>k::nat. ''r''"
  let ?e = "fullEvent 1000 ?rnd xssInput"
  let ?m1 = "appendEvent ?e faultyMonitor"
  have ty: "type_ev ?e = XSS_ATTEMPT"
    by (simp add: fullEvent_def xssInput_def sampleInput_def)
  have pre: "checkRules 1000 ?rnd 0 ?e (map (\<lambda>r. (id_rule r, r)) defaultRules) ?m1 = (?m1, None)"
    by (simp add: defaultRules_def ty)
  have last: "lastRuleTrigger ?m1 = Map.empty"
    by (simp add: appendEvent_def Let_def faultyMonitor_def newSecurityMonitor_def
        loadDefaultThreatRules_def addThreatRules_def addThreatRule_def defaultRules_def)
  have cap: "maxEventsHistory faultyMonitor = 10000" and ev: "evaluated ?m1 = []"
    by (simp_all add: appendEvent_def Let_def faultyMonitor_def newSecurityMonitor_def
        loadDefaultThreatRules_def addThreatRules_def addThreatRule_def defaultRules_def)
  have listens: "type_ev ?e \<in> set (eventTypes faultyRule)"
    by (simp add: ty faultyRule_def)
  have cool: "\<not> inCooldown 1000 faultyRule (lastRuleTrigger ?m1 ''faulty'')"
    by (simp add: last inCooldown_def)
  have throws: "condition faultyRule 1000 (events ?m1) = Inl ''boom''"
    by (simp add: faultyRule_def)
  from condition_exception_propagates[OF refl threatRules_faultyMonitor pre listens cool throws]
  show ?thesis
    by (simp add: cap ev)
qed

text \<open>
  Claim C3 as stated fails: with a faulty rule registered before one that always holds,
  \<open>recordEvent\<close> ends with the exception, the second rule is never evaluated and the
  log holds the recorded event only.
\<close>

theorem condition_exception_not_caught:
  "(case snd (recordEvent 1000 (\<lambda>k. ''r'') xssInput faultyMonitor) of
      Inl x \<Rightarrow> x = ''boom'' | Inr e \<Rightarrow> False) \<and>
   map fst (threatRules faultyMonitor) =
     [''brute_force_detection'', ''injection_attack_pattern'', ''rate_limit_abuse'',
      ''faulty'', ''eager''] \<and>
   evaluated (fst (recordEvent 1000 (\<lambda>k. ''r'') xssInput faultyMonitor)) = [''faulty''] \<and>
   lastRuleTrigger (fst (recordEvent 1000 (\<lambda>k. ''r'') xssInput faultyMonitor)) ''eager'' = None \<and>
   map (\<lambda>e. (type_ev e, severity_ev e))
     (events (fst (recordEvent 1000 (\<lambda>k. ''r'') xssInput faultyMonitor))) = [(XSS_ATTEMPT, High)] \<and>
   length (emitted (fst (recordEvent 1000 (\<lambda>k. ''r'') xssInput faultyMonitor))) = 0"
  by code_simp

section \<open>Rule evaluation is not re-entrant\<close>

lemma ruleEffects_none: "ruleEffects e [] m m"
  unfolding ruleEffects_def
  by (intro exI[of _ "[]"]) simp

lemma ruleEffects_skip:
  assumes "ruleEffects e rest m m'"
  shows "ruleEffects e (p # rest) m m'"
proof -
  from assms obtain cs synth es where h:
    "evaluated m' = evaluated m @ cs" "subseq cs (map fst (filter (listens e) rest))"
    "events m' = events m @ synth" "list_all (\<lambda>t. type_ev t = ANOMALOUS_BEHAVIOR) synth"
    "emitted m' = emitted m @ es" "list_all (announcedFor e) es"
    "length (filter isThreatDetected es) = length synth" "length synth \<le> length cs"
    "totalEvents (metrics m') = totalEvents (metrics m) + length synth"
    unfolding ruleEffects_def by blast
  have "subseq cs (map fst (filter (listens e) (p # rest)))"
    using h(2) by (cases "listens e p") (auto intro: list_emb_Cons)
  with h show ?thesis
    unfolding ruleEffects_def by blast
qed

lemma ruleEffects_same: "ruleEffects e rules m m"
  by (induction rules) (simp_all add: ruleEffects_none ruleEffects_skip)

lemma ruleEffects_evaluated:
  assumes "listens e (ruleId, rule)"
    and "ruleEffects e rest (m \<lparr> evaluated := evaluated m @ [ruleId] \<rparr>) m'"
  shows "ruleEffects e ((ruleId, rule) # rest) m m'"
proof -
  from assms(2) obtain cs synth es where h:
    "evaluated m' = (evaluated m @ [ruleId]) @ cs" "subseq cs (map fst (filter (listens e) rest))"
    "events m' = events m @ synth" "list_all (\<lambda>t. type_ev t = ANOMALOUS_BEHAVIOR) synth"
    "emitted m' = emitted m @ es" "list_all (announcedFor e) es"
    "length (filter isThreatDetected es) = length synth" "length synth \<le> length cs"
    "totalEvents (metrics m') = totalEvents (metrics m) + length synth"
    unfolding ruleEffects_def by auto
  have "evaluated m' = evaluated m @ (ruleId # cs)"
    using h(1) by simp
  moreover have "subseq (ruleId # cs) (map fst (filter (listens e) ((ruleId, rule) # rest)))"
    using h(2) assms(1) by simp
  moreover have "length synth \<le> length (ruleId # cs)"
    using h(8) by simp
  ultimately show ?thesis
    unfolding ruleEffects_def using h(3-7,9) by blast
qed

lemma ruleEffects_fired:
  assumes "listens e (ruleId, rule)"
    and "ruleEffects e rest
           (handleThreatDetection now k rule e
              (m \<lparr> evaluated := evaluated m @ [ruleId],
                   lastRuleTrigger := (lastRuleTrigger m)(ruleId \<mapsto> now) \<rparr>)) m'"
  shows "ruleEffects e ((ruleId, rule) # rest) m m'"
proof -
  let ?h = "handleThreatDetection now k rule e
              (m \<lparr> evaluated := evaluated m @ [ruleId],
                   lastRuleTrigger := (lastRuleTrigger m)(ruleId \<mapsto> now) \<rparr>)"
  obtain threat es0 where hd:
    "events ?h = events m @ [threat]" "type_ev threat = ANOMALOUS_BEHAVIOR"
    "emitted ?h = emitted m @ es0" "list_all (announcedFor e) es0"
    "length (filter isThreatDetected es0) = 1"
    "evaluated ?h = evaluated m @ [ruleId]"
    "totalEvents (metrics ?h) = Suc (totalEvents (metrics m))"
    by (cases "action_rule rule")
       (simp_all add: handleThreatDetection_def Let_def totalEvents_updateMetrics)
  from assms(2) obtain cs synth es where h:
    "evaluated m' = evaluated ?h @ cs" "subseq cs (map fst (filter (listens e) rest))"
    "events m' = events ?h @ synth" "list_all (\<lambda>t. type_ev t = ANOMALOUS_BEHAVIOR) synth"
    "emitted m' = emitted ?h @ es" "list_all (announcedFor e) es"
    "length (filter isThreatDetected es) = length synth" "length synth \<le> length cs"
    "totalEvents (metrics m') = totalEvents (metrics ?h) + length synth"
    unfolding ruleEffects_def by blast
  have "evaluated m' = evaluated m @ (ruleId # cs)"
    using h(1) hd(6) by simp
  moreover have "subseq (ruleId # cs) (map fst (filter (listens e) ((ruleId, rule) # rest)))"
    using h(2) assms(1) by simp
  moreover have "events m' = events m @ (threat # synth)"
    using h(3) hd(1) by simp
  moreover have "list_all (\<lambda>t. type_ev t = ANOMALOUS_BEHAVIOR) (threat # synth)"
    using h(4) hd(2) by simp
  moreover have "emitted m' = emitted m @ (es0 @ es)"
    using h(5) hd(3) by simp
  moreover have "list_all (announcedFor e) (es0 @ es)"
    using h(6) hd(4) by simp
  moreover have "length (filter isThreatDetected (es0 @ es)) = length (threat # synth)"
    using h(7) hd(5) by simp
  moreover have "length (threat # synth) \<le> length (ruleId # cs)"
    using h(8) by simp
  moreover have "totalEvents (metrics m') = totalEvents (metrics m) + length (threat # synth)"
    using h(9) hd(7) by simp
  ultimately show ?thesis
    unfolding ruleEffects_def by blast
qed

lemma checkRules_ruleEffects:
  "ruleEffects event rules m (fst (checkRules now rnd i event rules m))"
proof (induction rules arbitrary: i m)
  case Nil
  then show ?case by (simp add: ruleEffects_none)
next
  case (Cons p rest)
  obtain ruleId rule where p: "p = (ruleId, rule)"
    by (cases p)
  show ?case
  proof (cases "type_ev event \<in> set (eventTypes rule)")
    case False
    then show ?thesis
      using Cons.IH[of m "Suc i"] by (simp add: p ruleEffects_skip)
  next
    case True
    then have l: "listens event (ruleId, rule)"
      by (simp add: listens_def)
    show ?thesis
    proof (cases "inCooldown now rule (lastRuleTrigger m ruleId)")
      case True
      then show ?thesis
        using Cons.IH[of m "Suc i"] \<open>type_ev event \<in> set (eventTypes rule)\<close>
        by (simp add: p ruleEffects_skip)
    next
      case False
      let ?m1 = "m \<lparr> evaluated := evaluated m @ [ruleId] \<rparr>"
      show ?thesis
      proof (cases "condition rule now (events m)")
        case (Inl x)
        have "ruleEffects event ((ruleId, rule) # rest) m ?m1"
          by (rule ruleEffects_evaluated[OF l]) (rule ruleEffects_same)
        then show ?thesis
          using Inl False True by (simp add: p Let_def)
      next
        case (Inr b)
        show ?thesis
        proof (cases b)
          case True
          have "ruleEffects event ((ruleId, rule) # rest) m
                  (fst (checkRules now rnd (Suc i) event rest
                     (handleThreatDetection now (rnd (Suc i)) rule event
                        (m \<lparr> evaluated := evaluated m @ [ruleId],
                             lastRuleTrigger := (lastRuleTrigger m)(ruleId \<mapsto> now) \<rparr>))))"
            by (rule ruleEffects_fired[OF l]) (rule Cons.IH)
          then show ?thesis
            using Inr True False \<open>type_ev event \<in> set (eventTypes rule)\<close>
            by (simp add: p Let_def)
        next
          case False
          have "ruleEffects event ((ruleId, rule) # rest) m
                  (fst (checkRules now rnd (Suc i) event rest ?m1))"
            by (rule ruleEffects_evaluated[OF l]) (rule Cons.IH)
          then show ?thesis
            using Inr False \<open>\<not> inCooldown now rule (lastRuleTrigger m ruleId)\<close>
              \<open>type_ev event \<in> set (eventTypes rule)\<close>
            by (simp add: p Let_def)
        qed
      qed
    qed
  qed
qed


lemma recordEvent_ruleEffects:
  assumes "m' = fst (recordEvent now rnd inp m)"
  shows "\<exists>cs synth es.
     evaluated m' = evaluated m @ cs \<and>
     subseq cs (map fst (filter (\<lambda>p. type_in inp \<in> set (eventTypes (snd p))) (threatRules m))) \<and>
     length cs \<le> length (threatRules m) \<and>
     events m' = events (appendEvent (fullEvent now rnd inp) m) @ synth \<and>
     list_all (\<lambda>t. type_ev t = ANOMALOUS_BEHAVIOR) synth \<and>
     emitted m' = emitted m @ es \<and>
     list_all (announcedFor (fullEvent now rnd inp)) es \<and>
     length (filter isThreatDetected es) = length synth \<and>
     length synth \<le> length cs \<and>
     totalEvents (getMetrics m') = Suc (totalEvents (getMetrics m)) + length synth"
proof -
  let ?e = "fullEvent now rnd inp"
  let ?a = "appendEvent ?e m"
  let ?c = "fst (checkThreatRules now rnd ?e ?a)"
  have a: "evaluated ?a = evaluated m" "emitted ?a = emitted m" "threatRules ?a = threatRules m"
    "totalEvents (metrics ?a) = Suc (totalEvents (metrics m))"
    by (simp_all add: appendEvent_def Let_def totalEvents_updateMetrics)
  have "ruleEffects ?e (threatRules m) ?a ?c"
    unfolding checkThreatRules_def a(3) by (rule checkRules_ruleEffects)
  then obtain cs synth es where h:
    "evaluated ?c = evaluated m @ cs" "subseq cs (map fst (filter (listens ?e) (threatRules m)))"
    "events ?c = events ?a @ synth" "list_all (\<lambda>t. type_ev t = ANOMALOUS_BEHAVIOR) synth"
    "emitted ?c = emitted m @ es" "list_all (announcedFor ?e) es"
    "length (filter isThreatDetected es) = length synth" "length synth \<le> length cs"
    "totalEvents (metrics ?c) = Suc (totalEvents (metrics m)) + length synth"
    unfolding ruleEffects_def a by auto
  have l: "listens ?e = (\<lambda>p. type_in inp \<in> set (eventTypes (snd p)))"
    by (simp add: listens_def fullEvent_def fun_eq_iff)
  have "length cs \<le> length (map fst (filter (listens ?e) (threatRules m)))"
    using h(2) by (rule list_emb_length)
  also have "\<dots> \<le> length (threatRules m)"
    by simp
  finally have bound: "length cs \<le> length (threatRules m)" .
  show ?thesis
  proof (cases "snd (checkThreatRules now rnd ?e ?a)")
    case None
    then have m': "m' = ?c \<lparr> emitted := emitted ?c @ [SecurityEventEmitted ?e] \<rparr>"
      by (simp add: assms recordEvent_fst Let_def)
    have "emitted m' = emitted m @ (es @ [SecurityEventEmitted ?e])"
      "list_all (announcedFor ?e) (es @ [SecurityEventEmitted ?e])"
      "length (filter isThreatDetected (es @ [SecurityEventEmitted ?e])) = length synth"
      using h(5,6,7) by (simp_all add: m')
    moreover have "evaluated m' = evaluated m @ cs" "events m' = events ?a @ synth"
      "totalEvents (getMetrics m') = Suc (totalEvents (getMetrics m)) + length synth"
      using h(1,3,9) by (simp_all add: m' getMetrics_def)
    ultimately show ?thesis
      using h(2,4,8) bound unfolding l by blast
  next
    case (Some x)
    then have m': "m' = ?c"
      by (simp add: assms recordEvent_fst Let_def)
    have "totalEvents (getMetrics m') = Suc (totalEvents (getMetrics m)) + length synth"
      using h(9) by (simp add: m' getMetrics_def)
    then show ?thesis
      using h(1-8) bound unfolding l m' by blast
  qed
qed

lemma handleThreatDetection_threatEventOf:
  "handleThreatDetection now rand rule e m =
     m \<lparr> events := events m @ [threatEventOf now rand rule e],
         metrics := updateMetrics (threatEventOf now rand rule e) (metrics m),
         emitted := emitted m @ ThreatDetected rule e (threatEventOf now rand rule e) #
           (case action_rule rule of
              Block \<Rightarrow> [BlockRequest (source e) rule]
            | Alert \<Rightarrow> [SecurityAlert rule e]
            | Log \<Rightarrow> []) \<rparr>"
  by (simp add: handleThreatDetection_def threatEventOf_def Let_def)

lemma synthesizedBy_threatEventOf: "synthesizedBy now rule e (threatEventOf now rand rule e)"
  by (simp add: synthesizedBy_def) (simp add: threatEventOf_def)

lemma synthesizedBy_fields:
  assumes "synthesizedBy now rule e t"
  shows "type_ev t = ANOMALOUS_BEHAVIOR" "severity_ev t = severity_rule rule"
    "source t = source e" "timestamp t = now" "metadata t = metadata e"
proof -
  obtain n rand where "id_ev t = EventId n rand"
    by (cases "id_ev t")
  with assms have t: "t = threatEventOf now rand rule e"
    by (simp add: synthesizedBy_def)
  show "type_ev t = ANOMALOUS_BEHAVIOR" "severity_ev t = severity_rule rule"
    "source t = source e" "timestamp t = now" "metadata t = metadata e"
    unfolding t by (simp_all add: threatEventOf_def)
qed

lemma threatEvents_append: "threatEvents (es @ es') = threatEvents es @ threatEvents es'"
  by (induction es rule: threatEvents.induct) simp_all

lemma threatEvents_member:
  "ThreatDetected rule e t \<in> set es \<Longrightarrow> t \<in> set (threatEvents es)"
  by (induction es rule: threatEvents.induct) auto

lemma ledger_same: "ledger now e m m"
  unfolding ledger_def by (intro exI[of _ "[]"]) simp

lemma ledger_fired:
  assumes "ledger now e m0 m"
  shows "ledger now e m0
           (handleThreatDetection now rand rule e
              (m \<lparr> lastRuleTrigger := (lastRuleTrigger m)(ruleId \<mapsto> now) \<rparr>))"
proof -
  let ?t = "threatEventOf now rand rule e"
  let ?acts = "case action_rule rule of
              Block \<Rightarrow> [BlockRequest (source e) rule]
            | Alert \<Rightarrow> [SecurityAlert rule e]
            | Log \<Rightarrow> []"
  let ?h = "handleThreatDetection now rand rule e
              (m \<lparr> lastRuleTrigger := (lastRuleTrigger m)(ruleId \<mapsto> now) \<rparr>)"
  from assms obtain synth es where h:
    "events m = events m0 @ synth" "emitted m = emitted m0 @ es" "threatEvents es = synth"
    "list_all (threatAnnounced now e) es" "metrics m = fold updateMetrics synth (metrics m0)"
    unfolding ledger_def by blast
  have acts: "threatEvents ?acts = []" "list_all (threatAnnounced now e) ?acts"
    by (cases "action_rule rule"; simp)+
  have "events ?h = events m0 @ (synth @ [?t])"
    using h(1) by (simp add: handleThreatDetection_threatEventOf)
  moreover have "emitted ?h = emitted m0 @ (es @ ThreatDetected rule e ?t # ?acts)"
    using h(2) by (simp add: handleThreatDetection_threatEventOf)
  moreover have "threatEvents (es @ ThreatDetected rule e ?t # ?acts) = synth @ [?t]"
    using h(3) acts(1) by (simp add: threatEvents_append)
  moreover have "list_all (threatAnnounced now e) (es @ ThreatDetected rule e ?t # ?acts)"
    using h(4) acts(2) by (simp add: synthesizedBy_threatEventOf)
  moreover have "metrics ?h = fold updateMetrics (synth @ [?t]) (metrics m0)"
    using h(5) by (simp add: handleThreatDetection_threatEventOf)
  ultimately show ?thesis
    unfolding ledger_def by blast
qed

lemma checkRules_ledger:
  "ledger now event m (fst (checkRules now rnd i event rules m))"
proof (rule checkRules_preserves[where P="ledger now event m"])
  fix m' :: SecurityMonitor and ruleId
  assume "ledger now event m m'"
  then show "ledger now event m (m' \<lparr> evaluated := evaluated m' @ [ruleId] \<rparr>)"
    by (simp add: ledger_def)
next
  fix m' :: SecurityMonitor and ruleId rule k
  assume "ledger now event m m'"
  then show "ledger now event m (handleThreatDetection now k rule event
      (m' \<lparr> lastRuleTrigger := (lastRuleTrigger m')(ruleId \<mapsto> now) \<rparr>))"
    by (rule ledger_fired)
qed (rule ledger_same)

lemma recordEvent_ledger:
  "\<exists>synth es.
     events (fst (recordEvent now rnd inp m)) =
       events (appendEvent (fullEvent now rnd inp) m) @ synth \<and>
     emitted (fst (recordEvent now rnd inp m)) = emitted m @ es \<and>
     threatEvents es = synth \<and>
     list_all (threatAnnounced now (fullEvent now rnd inp)) es \<and>
     metrics (fst (recordEvent now rnd inp m)) =
       fold updateMetrics synth (metrics (appendEvent (fullEvent now rnd inp) m))"
proof -
  let ?e = "fullEvent now rnd inp"
  let ?a = "appendEvent ?e m"
  let ?c = "fst (checkThreatRules now rnd ?e ?a)"
  have a: "emitted ?a = emitted m"
    by (simp add: appendEvent_def Let_def)
  have "ledger now ?e ?a ?c"
    unfolding checkThreatRules_def by (rule checkRules_ledger)
  then obtain synth es where h:
    "events ?c = events ?a @ synth" "emitted ?c = emitted m @ es" "threatEvents es = synth"
    "list_all (threatAnnounced now ?e) es" "metrics ?c = fold updateMetrics synth (metrics ?a)"
    unfolding ledger_def a by blast
  show ?thesis
  proof (cases "snd (checkThreatRules now rnd ?e ?a)")
    case None
    then have m': "fst (recordEvent now rnd inp m) =
        ?c \<lparr> emitted := emitted ?c @ [SecurityEventEmitted ?e] \<rparr>"
      by (simp add: recordEvent_fst Let_def)
    have "emitted (fst (recordEvent now rnd inp m)) = emitted m @ (es @ [SecurityEventEmitted ?e])"
      "threatEvents (es @ [SecurityEventEmitted ?e]) = synth"
      "list_all (threatAnnounced now ?e) (es @ [SecurityEventEmitted ?e])"
      using h(2,3,4) by (simp_all add: m' threatEvents_append)
    moreover have "events (fst (recordEvent now rnd inp m)) = events ?a @ synth"
      "metrics (fst (recordEvent now rnd inp m)) = fold updateMetrics synth (metrics ?a)"
      using h(1,5) by (simp_all add: m')
    ultimately show ?thesis
      by blast
  next
    case (Some x)
    then have m': "fst (recordEvent now rnd inp m) = ?c"
      by (simp add: recordEvent_fst Let_def)
    show ?thesis
      unfolding m' using h by blast
  qed
qed

text \<open>A rule whose turn comes without an exception and whose condition holds is announced.\<close>

lemma recordEvent_fired_emission:
  assumes split: "threatRules m = pre @ (ruleId, rule) # post"
    and before: "checkRules now rnd 0 (fullEvent now rnd inp) pre
                   (appendEvent (fullEvent now rnd inp) m) = (m1, None)"
    and listens: "type_in inp \<in> set (eventTypes rule)"
    and ready: "\<not> inCooldown now rule (lastRuleTrigger m1 ruleId)"
    and holds: "condition rule now (events m1) = Inr True"
  shows "\<exists>es1 threat es2.
           emitted (fst (recordEvent now rnd inp m)) =
             emitted m @ es1 @ ThreatDetected rule (fullEvent now rnd inp) threat # es2"
proof -
  let ?e = "fullEvent now rnd inp"
  let ?a = "appendEvent ?e m"
  let ?t = "threatEventOf now (rnd (Suc (length pre))) rule ?e"
  let ?m2 = "handleThreatDetection now (rnd (Suc (length pre))) rule ?e
               (m1 \<lparr> evaluated := evaluated m1 @ [ruleId],
                     lastRuleTrigger := (lastRuleTrigger m1)(ruleId \<mapsto> now) \<rparr>)"
  let ?m3 = "fst (checkRules now rnd (Suc (length pre)) ?e post ?m2)"
  have a: "threatRules ?a = threatRules m" "emitted ?a = emitted m"
    by (simp_all add: appendEvent_def Let_def)
  have ty: "type_ev ?e \<in> set (eventTypes rule)"
    using listens by (simp add: fullEvent_def)
  have m1: "m1 = fst (checkRules now rnd 0 ?e pre ?a)"
    by (simp add: before)
  have "ledger now ?e ?a m1"
    unfolding m1 by (rule checkRules_ledger)
  then obtain es1 where es1: "emitted m1 = emitted m @ es1"
    unfolding ledger_def a by blast
  have step: "checkRules now rnd (length pre) ?e ((ruleId, rule) # post) m1 =
          checkRules now rnd (Suc (length pre)) ?e post ?m2"
    using ty ready holds by (simp add: Let_def)
  have all: "checkThreatRules now rnd ?e ?a = checkRules now rnd (Suc (length pre)) ?e post ?m2"
    unfolding checkThreatRules_def a(1) split checkRules_append before
    using step by simp
  obtain acts where m2: "emitted ?m2 = emitted m1 @ ThreatDetected rule ?e ?t # acts"
    by (simp add: handleThreatDetection_threatEventOf)
  have "ledger now ?e ?m2 ?m3"
    by (rule checkRules_ledger)
  then obtain es3 where es3: "emitted ?m3 = emitted ?m2 @ es3"
    unfolding ledger_def by blast
  have "\<exists>es4. emitted (fst (recordEvent now rnd inp m)) = emitted ?m3 @ es4"
    by (simp add: recordEvent_fst Let_def all split: option.split)
  then obtain es4 where "emitted (fst (recordEvent now rnd inp m)) = emitted ?m3 @ es4"
    by blast
  then have "emitted (fst (recordEvent now rnd inp m)) =
      emitted m @ es1 @ ThreatDetected rule ?e ?t # (acts @ es3 @ es4)"
    by (simp add: es3 m2 es1)
  then show ?thesis
    by blast
qed

text \<open>
  Claim C7. In one \<open>recordEvent\<close> call the conditions invoked are those of a subsequence
  of the registered rules that listen to the type of the recorded event, so there are at
  most as many invocations as rules and the call returns, and every notification of the
  call names the recorded event as its trigger: no rule is evaluated for a synthetic
  event. What the call adds to the log after the recorded event is exactly the list of
  synthetic events it announces, each built by \<open>handleThreatDetection\<close> from its rule and
  the recorded event; the metrics after the call are those before it updated with the
  recorded event and then with each synthetic event in turn. And a rule whose turn comes
  without an exception, that listens to the event, is out of its cooldown and whose
  condition holds, is announced with a synthetic event of its severity that is in the log.
\<close>

theorem recordEvent_evaluates_recorded_event_only:
  assumes "m' = fst (recordEvent now rnd inp m)" and "e = fullEvent now rnd inp"
  shows "\<exists>cs synth es.
     evaluated m' = evaluated m @ cs \<and>
     subseq cs (map fst (filter (\<lambda>p. type_in inp \<in> set (eventTypes (snd p))) (threatRules m))) \<and>
     length cs \<le> length (threatRules m) \<and>
     events m' = events (appendEvent e m) @ synth \<and>
     list_all (\<lambda>t. type_ev t = ANOMALOUS_BEHAVIOR) synth \<and>
     emitted m' = emitted m @ es \<and>
     list_all (announcedFor e) es \<and>
     length (filter isThreatDetected es) = length synth \<and>
     length synth \<le> length cs \<and>
     totalEvents (getMetrics m') = Suc (totalEvents (getMetrics m)) + length synth \<and>
     threatEvents es = synth \<and>
     list_all (threatAnnounced now e) es \<and>
     getMetrics m' = fold updateMetrics (e # synth) (getMetrics m) \<and>
     (threatRules m = pre @ (ruleId, rule) # post \<and>
      checkRules now rnd 0 e pre (appendEvent e m) = (m1, None) \<and>
      type_in inp \<in> set (eventTypes rule) \<and>
      \<not> inCooldown now rule (lastRuleTrigger m1 ruleId) \<and>
      condition rule now (events m1) = Inr True \<longrightarrow>
        (\<exists>threat. ThreatDetected rule e threat \<in> set es \<and>
           threat \<in> set synth \<and> threat \<in> set (events m') \<and>
           type_ev threat = ANOMALOUS_BEHAVIOR \<and>
           severity_ev threat = severity_rule rule \<and>
           source threat = source_in inp \<and> timestamp threat = now))"
proof -
  from recordEvent_ruleEffects[OF assms(1)] obtain cs synth es where h:
    "evaluated m' = evaluated m @ cs"
    "subseq cs (map fst (filter (\<lambda>p. type_in inp \<in> set (eventTypes (snd p))) (threatRules m)))"
    "length cs \<le> length (threatRules m)"
    "events m' = events (appendEvent e m) @ synth"
    "list_all (\<lambda>t. type_ev t = ANOMALOUS_BEHAVIOR) synth"
    "emitted m' = emitted m @ es"
    "list_all (announcedFor e) es"
    "length (filter isThreatDetected es) = length synth"
    "length synth \<le> length cs"
    "totalEvents (getMetrics m') = Suc (totalEvents (getMetrics m)) + length synth"
    unfolding assms(2) by blast
  from recordEvent_ledger[of now rnd inp m] obtain synth' es' where l:
    "events m' = events (appendEvent e m) @ synth'" "emitted m' = emitted m @ es'"
    "threatEvents es' = synth'" "list_all (threatAnnounced now e) es'"
    "metrics m' = fold updateMetrics synth' (metrics (appendEvent e m))"
    unfolding assms by blast
  have same: "synth' = synth" "es' = es"
    using h(4,6) l(1,2) by simp_all
  have k: "threatEvents es = synth" "list_all (threatAnnounced now e) es"
    using l(3,4) by (simp_all add: same)
  have mt: "getMetrics m' = fold updateMetrics (e # synth) (getMetrics m)"
    using l(5) by (simp add: same getMetrics_def appendEvent_def Let_def)
  have fired: "\<exists>threat. ThreatDetected rule e threat \<in> set es \<and>
           threat \<in> set synth \<and> threat \<in> set (events m') \<and>
           type_ev threat = ANOMALOUS_BEHAVIOR \<and>
           severity_ev threat = severity_rule rule \<and>
           source threat = source_in inp \<and> timestamp threat = now"
    if g: "threatRules m = pre @ (ruleId, rule) # post"
      "checkRules now rnd 0 e pre (appendEvent e m) = (m1, None)"
      "type_in inp \<in> set (eventTypes rule)"
      "\<not> inCooldown now rule (lastRuleTrigger m1 ruleId)"
      "condition rule now (events m1) = Inr True"
  proof -
    from recordEvent_fired_emission[OF g(1) g(2)[unfolded assms(2)] g(3,4,5)]
    obtain es1 threat es2 where
      "emitted m' = emitted m @ es1 @ ThreatDetected rule e threat # es2"
      unfolding assms by blast
    with h(6) have es: "es = es1 @ ThreatDetected rule e threat # es2"
      by simp
    then have mem: "ThreatDetected rule e threat \<in> set es"
      by simp
    have "\<forall>x \<in> set es. threatAnnounced now e x"
      using k(2) by (simp add: list_all_iff)
    with mem have "threatAnnounced now e (ThreatDetected rule e threat)"
      by blast
    then have sy: "synthesizedBy now rule e threat"
      by simp
    have "threat \<in> set synth"
      using threatEvents_member[OF mem] k(1) by simp
    moreover from this have "threat \<in> set (events m')"
      by (simp add: h(4))
    moreover have "source e = source_in inp"
      by (simp add: assms(2) fullEvent_def)
    ultimately show ?thesis
      using mem synthesizedBy_fields[OF sy] by auto
  qed
  from h k mt fired show ?thesis
    by blast
qed

theorem recordEvent_evaluates_recorded_event_only_witness:
  "map fst (threatRules echoMonitor) =
     [''brute_force_detection'', ''injection_attack_pattern'', ''rate_limit_abuse'',
      ''eager'', ''echo''] \<and>
   evaluated (fst (recordEvent 1000 (\<lambda>k. ''r'') xssInput echoMonitor)) = [''eager''] \<and>
   map type_ev (events (fst (recordEvent 1000 (\<lambda>k. ''r'') xssInput echoMonitor))) =
     [XSS_ATTEMPT, ANOMALOUS_BEHAVIOR] \<and>
   topSources (getMetrics (fst (recordEvent 1000 (\<lambda>k. ''r'') xssInput echoMonitor))) =
     [(''a'', 2)] \<and>
   severity_rule eagerRule = High \<and>
   (\<exists>cs synth es threat.
     evaluated (fst (recordEvent 1000 (\<lambda>k. ''r'') xssInput echoMonitor)) =
       evaluated echoMonitor @ cs \<and>
     length cs \<le> length (threatRules echoMonitor) \<and>
     events (fst (recordEvent 1000 (\<lambda>k. ''r'') xssInput echoMonitor)) =
       events (appendEvent (fullEvent 1000 (\<lambda>k. ''r'') xssInput) echoMonitor) @ synth \<and>
     list_all (\<lambda>t. type_ev t = ANOMALOUS_BEHAVIOR) synth \<and>
     emitted (fst (recordEvent 1000 (\<lambda>k. ''r'') xssInput echoMonitor)) = emitted echoMonitor @ es \<and>
     list_all (announcedFor (fullEvent 1000 (\<lambda>k. ''r'') xssInput)) es \<and>
     length (filter isThreatDetected es) = length synth \<and>
     length synth \<le> length cs \<and>
     threatEvents es = synth \<and>
     getMetrics (fst (recordEvent 1000 (\<lambda>k. ''r'') xssInput echoMonitor)) =
       fold updateMetrics (fullEvent 1000 (\<lambda>k. ''r'') xssInput # synth) (getMetrics echoMonitor) \<and>
     ThreatDetected eagerRule (fullEvent 1000 (\<lambda>k. ''r'') xssInput) threat \<in> set es \<and>
     threat \<in> set synth \<and>
     threat \<in> set (events (fst (recordEvent 1000 (\<lambda>k. ''r'') xssInput echoMonitor))) \<and>
     severity_ev threat = High)"
proof -
  let ?rnd = "\<lambda>k::nat. ''r''"
  let ?e = "fullEvent 1000 ?rnd xssInput"
  let ?a = "appendEvent ?e echoMonitor"
  let ?m' = "fst (recordEvent 1000 ?rnd xssInput echoMonitor)"
  have a: "map fst (threatRules echoMonitor) =
     [''brute_force_detection'', ''injection_attack_pattern'', ''rate_limit_abuse'',
      ''eager'', ''echo'']"
    by code_simp
  have b: "evaluated ?m' = [''eager'']"
    by code_simp
  have c: "map type_ev (events ?m') = [XSS_ATTEMPT, ANOMALOUS_BEHAVIOR]"
    by code_simp
  have d: "topSources (getMetrics ?m') = [(''a'', 2)]"
    by code_simp
  have sev: "severity_rule eagerRule = High"
    by (simp add: eagerRule_def)
  have rules: "threatRules echoMonitor =
     map (\<lambda>r. (id_rule r, r)) defaultRules @ (''eager'', eagerRule) # [(''echo'', echoRule)]"
    by (simp add: echoMonitor_def newSecurityMonitor_def loadDefaultThreatRules_def
        addThreatRules_def addThreatRule_def defaultRules_def echoRule_def eagerRule_def)
  have ty: "type_ev ?e = XSS_ATTEMPT" "type_in xssInput \<in> set (eventTypes eagerRule)"
    by (simp_all add: fullEvent_def xssInput_def sampleInput_def eagerRule_def)
  have pre: "checkRules 1000 ?rnd 0 ?e (map (\<lambda>r. (id_rule r, r)) defaultRules) ?a = (?a, None)"
    by (simp add: defaultRules_def ty)
  have last: "lastRuleTrigger ?a = Map.empty"
    by (simp add: appendEvent_def Let_def echoMonitor_def newSecurityMonitor_def
        loadDefaultThreatRules_def addThreatRules_def addThreatRule_def defaultRules_def)
  have ready: "\<not> inCooldown 1000 eagerRule (lastRuleTrigger ?a ''eager'')"
    by (simp add: last inCooldown_def)
  have holds: "condition eagerRule 1000 (events ?a) = Inr True"
    by (simp add: eagerRule_def)
  from recordEvent_evaluates_recorded_event_only[OF refl refl, of 1000 ?rnd xssInput echoMonitor
      "map (\<lambda>r. (id_rule r, r)) defaultRules" "''eager''" eagerRule "[(''echo'', echoRule)]" ?a]
  obtain cs synth es where h:
    "evaluated ?m' = evaluated echoMonitor @ cs"
    "length cs \<le> length (threatRules echoMonitor)"
    "events ?m' = events ?a @ synth"
    "list_all (\<lambda>t. type_ev t = ANOMALOUS_BEHAVIOR) synth"
    "emitted ?m' = emitted echoMonitor @ es"
    "list_all (announcedFor ?e) es"
    "length (filter isThreatDetected es) = length synth"
    "length synth \<le> length cs"
    "threatEvents es = synth"
    "getMetrics ?m' = fold updateMetrics (?e # synth) (getMetrics echoMonitor)"
    and f: "threatRules echoMonitor =
         map (\<lambda>r. (id_rule r, r)) defaultRules @ (''eager'', eagerRule) # [(''echo'', echoRule)] \<and>
       checkRules 1000 ?rnd 0 ?e (map (\<lambda>r. (id_rule r, r)) defaultRules) ?a = (?a, None) \<and>
       type_in xssInput \<in> set (eventTypes eagerRule) \<and>
       \<not> inCooldown 1000 eagerRule (lastRuleTrigger ?a ''eager'') \<and>
       condition eagerRule 1000 (events ?a) = Inr True \<longrightarrow>
        (\<exists>threat. ThreatDetected eagerRule ?e threat \<in> set es \<and>
           threat \<in> set synth \<and> threat \<in> set (events ?m') \<and>
           type_ev threat = ANOMALOUS_BEHAVIOR \<and>
           severity_ev threat = severity_rule eagerRule \<and>
           source threat = source_in xssInput \<and> timestamp threat = 1000)"
    by blast
  from f rules pre ty(2) ready holds obtain threat where
    "ThreatDetected eagerRule ?e threat \<in> set es" "threat \<in> set synth"
    "threat \<in> set (events ?m')" "severity_ev threat = High"
    by (auto simp: sev)
  with a b c d sev h show ?thesis
    by blast
qed

section \<open>Cooldowns\<close>

lemma firingsOf_handleThreatDetection:
  "firingsOf ruleId (handleThreatDetection now k rule event m) =
     firingsOf ruleId m + (if id_rule rule = ruleId then 1 else 0)"
  by (cases "action_rule rule") (simp_all add: handleThreatDetection_def Let_def firingsOf_def)

lemma lastRuleTrigger_handleThreatDetection:
  "lastRuleTrigger (handleThreatDetection now k rule event m) = lastRuleTrigger m"
  by (simp add: handleThreatDetection_def Let_def)

lemma threatRules_checkRules:
  "threatRules (fst (checkRules now rnd i event rules m)) = threatRules m"
  by (rule checkRules_preserves[where P="\<lambda>m'. threatRules m' = threatRules m"])
     (simp_all add: handleThreatDetection_def Let_def)

lemma threatRules_recordEvent:
  "threatRules (fst (recordEvent now rnd inp m)) = threatRules m"
  by (simp add: recordEvent_fst Let_def checkThreatRules_def threatRules_checkRules
      appendEvent_def split: option.split)

text \<open>Rules that are skipped or carry another id leave a rule's cooldown state and firings alone.\<close>

lemma checkRules_quiet:
  assumes "list_all (\<lambda>p. id_rule (snd p) = fst p) rules"
    and "\<forall>p \<in> set rules. fst p = ruleId \<longrightarrow>
           inCooldown now (snd p) (lastRuleTrigger m ruleId) \<or>
           type_ev event \<notin> set (eventTypes (snd p))"
  shows "lastRuleTrigger (fst (checkRules now rnd i event rules m)) ruleId = lastRuleTrigger m ruleId \<and>
         firingsOf ruleId (fst (checkRules now rnd i event rules m)) = firingsOf ruleId m"
  using assms
proof (induction rules arbitrary: i m)
  case Nil
  then show ?case by simp
next
  case (Cons p rest)
  obtain k rule where p: "p = (k, rule)"
    by (cases p)
  have ids: "list_all (\<lambda>p. id_rule (snd p) = fst p) rest" and id: "id_rule rule = k"
    using Cons.prems(1) by (simp_all add: p)
  have step: "\<And>m2 :: SecurityMonitor. lastRuleTrigger m2 ruleId = lastRuleTrigger m ruleId \<Longrightarrow>
      lastRuleTrigger (fst (checkRules now rnd (Suc i) event rest m2)) ruleId = lastRuleTrigger m ruleId \<and>
      firingsOf ruleId (fst (checkRules now rnd (Suc i) event rest m2)) = firingsOf ruleId m2"
  proof -
    fix m2 :: SecurityMonitor
    assume same: "lastRuleTrigger m2 ruleId = lastRuleTrigger m ruleId"
    have "\<forall>p \<in> set rest. fst p = ruleId \<longrightarrow>
           inCooldown now (snd p) (lastRuleTrigger m2 ruleId) \<or>
           type_ev event \<notin> set (eventTypes (snd p))"
      using Cons.prems(2) by (simp add: same)
    from Cons.IH[OF ids this, of "Suc i"] show
      "lastRuleTrigger (fst (checkRules now rnd (Suc i) event rest m2)) ruleId = lastRuleTrigger m ruleId \<and>
       firingsOf ruleId (fst (checkRules now rnd (Suc i) event rest m2)) = firingsOf ruleId m2"
      by (simp add: same)
  qed
  show ?case
  proof (cases "type_ev event \<notin> set (eventTypes rule) \<or> inCooldown now rule (lastRuleTrigger m k)")
    case True
    then show ?thesis
      using step[of m] by (auto simp: p)
  next
    case False
    then have other: "k \<noteq> ruleId"
      using Cons.prems(2) by (auto simp: p)
    let ?m1 = "m \<lparr> evaluated := evaluated m @ [k] \<rparr>"
    let ?m2 = "handleThreatDetection now (rnd (Suc i)) rule event
                 (?m1 \<lparr> lastRuleTrigger := (lastRuleTrigger ?m1)(k \<mapsto> now) \<rparr>)"
    have m1: "lastRuleTrigger ?m1 ruleId = lastRuleTrigger m ruleId" "firingsOf ruleId ?m1 = firingsOf ruleId m"
      by (simp_all add: firingsOf_def)
    have m2: "lastRuleTrigger ?m2 ruleId = lastRuleTrigger m ruleId" "firingsOf ruleId ?m2 = firingsOf ruleId m"
      using other id
      by (simp_all add: lastRuleTrigger_handleThreatDetection firingsOf_handleThreatDetection)
         (simp add: firingsOf_def)
    show ?thesis
      using False step[OF m1(1)] step[OF m2(1)] m1 m2
      by (simp add: p Let_def split: sum.split bool.split)
  qed
qed

lemma checkRules_fires:
  assumes "type_ev event \<in> set (eventTypes rule)"
    and "\<not> inCooldown now rule (lastRuleTrigger m ruleId)"
    and "condition rule now (events m) = Inr True"
  shows "checkRules now rnd i event ((ruleId, rule) # post) m =
           checkRules now rnd (Suc i) event post
             (handleThreatDetection now (rnd (Suc i)) rule event
                (m \<lparr> evaluated := evaluated m @ [ruleId],
                     lastRuleTrigger := (lastRuleTrigger m)(ruleId \<mapsto> now) \<rparr>))"
  using assms by (simp add: Let_def)

lemma registryOk_entry:
  assumes "registryOk rules" "map_of rules ruleId = Some rule" "p \<in> set rules" "fst p = ruleId"
  shows "snd p = rule"
proof -
  have "distinct (map fst rules)"
    using assms(1) by (simp add: registryOk_def)
  moreover have "(ruleId, snd p) \<in> set rules"
    using assms(3,4) by (cases p) auto
  ultimately have "map_of rules ruleId = Some (snd p)"
    by (rule map_of_is_SomeI)
  with assms(2) show ?thesis
    by simp
qed

lemma recordEvent_suppressed:
  assumes ok: "registryOk (threatRules m)"
    and reg: "map_of (threatRules m) ruleId = Some rule"
    and last: "lastRuleTrigger m ruleId = Some t" "t \<noteq> 0"
    and within: "now - t < cooldown rule"
  shows "lastRuleTrigger (fst (recordEvent now rnd inp m)) ruleId = Some t \<and>
         firingsOf ruleId (fst (recordEvent now rnd inp m)) = firingsOf ruleId m"
proof -
  let ?e = "fullEvent now rnd inp"
  let ?a = "appendEvent ?e m"
  have a: "lastRuleTrigger ?a = lastRuleTrigger m" "threatRules ?a = threatRules m"
    "emitted ?a = emitted m"
    by (simp_all add: appendEvent_def Let_def)
  have "inCooldown now rule (lastRuleTrigger ?a ruleId)"
    using last within by (simp add: a inCooldown_def)
  then have "\<forall>p \<in> set (threatRules m). fst p = ruleId \<longrightarrow>
           inCooldown now (snd p) (lastRuleTrigger ?a ruleId) \<or>
           type_ev ?e \<notin> set (eventTypes (snd p))"
    using registryOk_entry[OF ok reg] by auto
  with ok have
    "lastRuleTrigger (fst (checkRules now rnd 0 ?e (threatRules m) ?a)) ruleId = lastRuleTrigger ?a ruleId \<and>
     firingsOf ruleId (fst (checkRules now rnd 0 ?e (threatRules m) ?a)) = firingsOf ruleId ?a"
    by (intro checkRules_quiet) (simp_all add: registryOk_def)
  then show ?thesis
    using last(1)
    by (simp add: recordEvent_fst Let_def checkThreatRules_def a firingsOf_def split: option.split)
qed

lemma run_suppressed:
  assumes "registryOk (threatRules m)"
    and "map_of (threatRules m) ruleId = Some rule"
    and "lastRuleTrigger m ruleId = Some t" "t \<noteq> 0"
    and "list_all (recordedWithin t (t + cooldown rule)) calls"
  shows "lastRuleTrigger (run calls m) ruleId = Some t \<and>
         firingsOf ruleId (run calls m) = firingsOf ruleId m"
  using assms
proof (induction calls arbitrary: m)
  case Nil
  then show ?case by (simp add: run_def)
next
  case (Cons op calls)
  from Cons.prems(5) obtain now rnd inp where op: "op = RecordEvent now rnd inp"
    and now: "now - t < cooldown rule"
    by (cases op) auto
  let ?m1 = "fst (recordEvent now rnd inp m)"
  have s: "lastRuleTrigger ?m1 ruleId = Some t" "firingsOf ruleId ?m1 = firingsOf ruleId m"
    using recordEvent_suppressed[OF Cons.prems(1-4) now] by simp_all
  have r: "threatRules ?m1 = threatRules m"
    by (rule threatRules_recordEvent)
  have "lastRuleTrigger (run calls ?m1) ruleId = Some t \<and>
         firingsOf ruleId (run calls ?m1) = firingsOf ruleId ?m1"
    using Cons.prems by (intro Cons.IH) (simp_all add: r s)
  then show ?case
    by (simp add: run_def op s)
qed


lemma list_all_update:
  "list_all P al \<Longrightarrow> P (k, v) \<Longrightarrow> list_all P (AList.update k v al)"
  by (induction al) auto

lemma registryOk_addThreatRule:
  "registryOk (threatRules m) \<Longrightarrow> registryOk (threatRules (addThreatRule rule m))"
  by (simp add: registryOk_def addThreatRule_def distinct_update list_all_update)

lemma registryOk_removeThreatRule:
  "registryOk (threatRules m) \<Longrightarrow> registryOk (threatRules (removeThreatRule ruleId m))"
proof -
  assume ok: "registryOk (threatRules m)"
  then have "distinct (map fst (AList.delete ruleId (threatRules m)))"
    by (simp add: registryOk_def distinct_delete)
  moreover have "list_all (\<lambda>p. id_rule (snd p) = fst p) (AList.delete ruleId (threatRules m))"
    using ok by (simp add: registryOk_def AList.delete_eq list_all_iff)
  ultimately show ?thesis
    by (simp add: registryOk_def removeThreatRule_def)
qed

lemma registryOk_step:
  "registryOk (threatRules m) \<Longrightarrow> registryOk (threatRules (step op m))"
  by (cases op)
     (simp_all add: threatRules_recordEvent registryOk_addThreatRule registryOk_removeThreatRule
        clear_def)

lemma registryOk_run:
  "registryOk (threatRules m) \<Longrightarrow> registryOk (threatRules (run ops m))"
  unfolding run_def
  by (induction ops arbitrary: m) (simp_all add: registryOk_step)

lemma registryOk_addThreatRules:
  "registryOk (threatRules m) \<Longrightarrow> registryOk (threatRules (addThreatRules rules m))"
  unfolding addThreatRules_def
  by (induction rules arbitrary: m) (simp_all add: registryOk_addThreatRule)

lemma registryOk_newSecurityMonitor: "registryOk (threatRules (newSecurityMonitor cfg))"
proof -
  have "registryOk (threatRules \<lparr> events = [], metrics = initializeMetrics, threatRules = [],
          lastRuleTrigger = Map.empty, maxEventsHistory = h, emitted = [], evaluated = [] \<rparr>)" for h
    by (simp add: registryOk_def)
  then show ?thesis
    by (simp add: newSecurityMonitor_def Let_def loadDefaultThreatRules_def
        registryOk_addThreatRules split: option.split)
qed

lemma registryOk_split:
  assumes "registryOk (pre @ (ruleId, rule) # post)"
  shows "ruleId \<notin> fst ` set pre" "ruleId \<notin> fst ` set post" "id_rule rule = ruleId"
    "list_all (\<lambda>p. id_rule (snd p) = fst p) pre" "list_all (\<lambda>p. id_rule (snd p) = fst p) post"
  using assms by (auto simp: registryOk_def)

lemma recordEvent_fires:
  assumes ok: "registryOk (threatRules m)"
    and split: "threatRules m = pre @ (ruleId, rule) # post"
    and before: "checkRules now rnd 0 (fullEvent now rnd inp) pre
                   (appendEvent (fullEvent now rnd inp) m) = (m1, None)"
    and listens: "type_in inp \<in> set (eventTypes rule)"
    and ready: "\<not> inCooldown now rule (lastRuleTrigger m ruleId)"
    and holds: "condition rule now (events m1) = Inr True"
  shows "lastRuleTrigger (fst (recordEvent now rnd inp m)) ruleId = Some now \<and>
         firingsOf ruleId (fst (recordEvent now rnd inp m)) = Suc (firingsOf ruleId m)"
proof -
  let ?e = "fullEvent now rnd inp"
  let ?a = "appendEvent ?e m"
  note sp = registryOk_split[OF ok[unfolded split]]
  have a: "lastRuleTrigger ?a = lastRuleTrigger m" "threatRules ?a = threatRules m"
    "emitted ?a = emitted m"
    by (simp_all add: appendEvent_def Let_def)
  have ty: "type_ev ?e \<in> set (eventTypes rule)"
    using listens by (simp add: fullEvent_def)
  have m1: "m1 = fst (checkRules now rnd 0 ?e pre ?a)"
    by (simp add: before)
  have "lastRuleTrigger m1 ruleId = lastRuleTrigger ?a ruleId \<and> firingsOf ruleId m1 = firingsOf ruleId ?a"
    unfolding m1 using sp(1,4) by (intro checkRules_quiet) auto
  then have q1: "lastRuleTrigger m1 ruleId = lastRuleTrigger m ruleId" "firingsOf ruleId m1 = firingsOf ruleId m"
    by (simp_all add: a firingsOf_def)
  let ?m2 = "handleThreatDetection now (rnd (Suc (length pre))) rule ?e
               (m1 \<lparr> evaluated := evaluated m1 @ [ruleId],
                     lastRuleTrigger := (lastRuleTrigger m1)(ruleId \<mapsto> now) \<rparr>)"
  have q2: "lastRuleTrigger ?m2 ruleId = Some now" "firingsOf ruleId ?m2 = Suc (firingsOf ruleId m)"
    using sp(3) q1(2)
    by (simp_all add: lastRuleTrigger_handleThreatDetection firingsOf_handleThreatDetection)
       (simp add: firingsOf_def)
  have ready1: "\<not> inCooldown now rule (lastRuleTrigger m1 ruleId)"
    using ready by (simp add: q1)
  have all: "checkThreatRules now rnd ?e ?a =
          checkRules now rnd (Suc (length pre)) ?e post ?m2"
    unfolding checkThreatRules_def a(2) split checkRules_append before
    using checkRules_fires[OF ty ready1 holds] by simp
  have "lastRuleTrigger (fst (checkRules now rnd (Suc (length pre)) ?e post ?m2)) ruleId =
          lastRuleTrigger ?m2 ruleId \<and>
        firingsOf ruleId (fst (checkRules now rnd (Suc (length pre)) ?e post ?m2)) =
          firingsOf ruleId ?m2"
    using sp(2,5) by (intro checkRules_quiet) auto
  then show ?thesis
    using q2 by (simp add: recordEvent_fst Let_def all firingsOf_def split: option.split)
qed

text \<open>
  Claim C5. Let a rule registered under an id have last fired at the instant \<open>t\<close> (the
  clock is past the epoch: \<open>t\<close> is not 0) and have cooldown \<open>C\<close>. Then no sequence of
  \<open>recordEvent\<close> calls at instants of \<open>[t, t + C)\<close> makes it fire again, however many
  there are: its firings and its last firing instant stay as they are. And a call at an
  instant at or after \<open>t + C\<close>, for an event type the rule listens to, makes it fire when
  the rules registered before it are evaluated without an exception and its condition
  holds on the history they leave.
\<close>

theorem cooldown_suppresses_rule:
  assumes "m = run ops (newSecurityMonitor cfg)"
    and "map_of (threatRules m) ruleId = Some rule"
    and "lastRuleTrigger m ruleId = Some t" and "t \<noteq> 0"
  shows "(list_all (recordedWithin t (t + cooldown rule)) calls \<longrightarrow>
            firingsOf ruleId (run calls m) = firingsOf ruleId m \<and>
            lastRuleTrigger (run calls m) ruleId = Some t) \<and>
         (t + cooldown rule \<le> now \<and>
          type_in inp \<in> set (eventTypes rule) \<and>
          threatRules m = pre @ (ruleId, rule) # post \<and>
          checkRules now rnd 0 (fullEvent now rnd inp) pre
            (appendEvent (fullEvent now rnd inp) m) = (m1, None) \<and>
          condition rule now (events m1) = Inr True \<longrightarrow>
            firingsOf ruleId (fst (recordEvent now rnd inp m)) = Suc (firingsOf ruleId m) \<and>
            lastRuleTrigger (fst (recordEvent now rnd inp m)) ruleId = Some now)"
proof -
  have ok: "registryOk (threatRules m)"
    unfolding assms(1) by (rule registryOk_run) (rule registryOk_newSecurityMonitor)
  have quiet: "list_all (recordedWithin t (t + cooldown rule)) calls \<longrightarrow>
            firingsOf ruleId (run calls m) = firingsOf ruleId m \<and>
            lastRuleTrigger (run calls m) ruleId = Some t"
    using run_suppressed[OF ok assms(2,3,4)] by blast
  have again: "firingsOf ruleId (fst (recordEvent now rnd inp m)) = Suc (firingsOf ruleId m) \<and>
            lastRuleTrigger (fst (recordEvent now rnd inp m)) ruleId = Some now"
    if h: "t + cooldown rule \<le> now" "type_in inp \<in> set (eventTypes rule)"
      "threatRules m = pre @ (ruleId, rule) # post"
      "checkRules now rnd 0 (fullEvent now rnd inp) pre
            (appendEvent (fullEvent now rnd inp) m) = (m1, None)"
      "condition rule now (events m1) = Inr True"
  proof -
    have "\<not> inCooldown now rule (lastRuleTrigger m ruleId)"
      using h(1) assms(3) by (simp add: inCooldown_def)
    from recordEvent_fires[OF ok h(3,4,2) this h(5)] show ?thesis
      by simp
  qed
  from quiet again show ?thesis
    by blast
qed


lemma threatRules_echoMonitor:
  "threatRules echoMonitor =
     map (\<lambda>r. (id_rule r, r)) defaultRules @ (''eager'', eagerRule) # [(''echo'', echoRule)]"
  by (simp add: echoMonitor_def newSecurityMonitor_def loadDefaultThreatRules_def
      addThreatRules_def addThreatRule_def defaultRules_def echoRule_def eagerRule_def)

lemma threatRules_cooldownMonitor:
  "threatRules cooldownMonitor =
     map (\<lambda>r. (id_rule r, r)) defaultRules @ (''eager'', eagerRule) # [(''echo'', echoRule)]"
  by (simp add: cooldownMonitor_def run_def sampleRecord_def threatRules_recordEvent
      threatRules_echoMonitor)

theorem cooldown_suppresses_rule_witness:
  "lastRuleTrigger cooldownMonitor ''eager'' = Some 5000 \<and>
   cooldown eagerRule = 1000 \<and>
   list_all (recordedWithin 5000 6000) quietCalls \<and>
   firingsOf ''eager'' (run quietCalls cooldownMonitor) = firingsOf ''eager'' cooldownMonitor \<and>
   lastRuleTrigger (run quietCalls cooldownMonitor) ''eager'' = Some 5000 \<and>
   firingsOf ''eager'' (fst (recordEvent 6000 (\<lambda>k. ''r'') xssInput cooldownMonitor)) =
     Suc (firingsOf ''eager'' cooldownMonitor) \<and>
   lastRuleTrigger (fst (recordEvent 6000 (\<lambda>k. ''r'') xssInput cooldownMonitor)) ''eager'' =
     Some 6000"
proof -
  let ?rnd = "\<lambda>k::nat. ''r''"
  let ?e = "fullEvent 6000 ?rnd xssInput"
  let ?a = "appendEvent ?e cooldownMonitor"
  have reach: "cooldownMonitor =
      run [sampleRecord 5000 XSS_ATTEMPT High ''a'']
        (newSecurityMonitor
           \<lparr> maxEventsHistory_cfg = None, threatDetectionRules = Some [eagerRule, echoRule] \<rparr>)"
    by (simp add: cooldownMonitor_def echoMonitor_def)
  have reg: "map_of (threatRules cooldownMonitor) ''eager'' = Some eagerRule"
    by (simp add: threatRules_cooldownMonitor defaultRules_def)
  have last: "lastRuleTrigger cooldownMonitor ''eager'' = Some 5000"
    by code_simp
  have cd: "cooldown eagerRule = 1000"
    by (simp add: eagerRule_def)
  have calls: "list_all (recordedWithin 5000 6000) quietCalls"
    by (simp add: quietCalls_def sampleRecord_def)
  have ty: "type_ev ?e = XSS_ATTEMPT" "type_in xssInput \<in> set (eventTypes eagerRule)"
    by (simp_all add: fullEvent_def xssInput_def sampleInput_def eagerRule_def)
  have pre: "checkRules 6000 ?rnd 0 ?e (map (\<lambda>r. (id_rule r, r)) defaultRules) ?a = (?a, None)"
    by (simp add: defaultRules_def ty)
  have holds: "condition eagerRule 6000 (events ?a) = Inr True"
    by (simp add: eagerRule_def)
  from cooldown_suppresses_rule[OF reach reg last, of quietCalls 6000 xssInput
      "map (\<lambda>r. (id_rule r, r)) defaultRules" "[(''echo'', echoRule)]" ?rnd ?a]
  show ?thesis
    using last calls ty(2) pre holds threatRules_cooldownMonitor by (simp add: cd)
qed

lemma lastRuleTrigger_recordEvent_kept:
  assumes "lastRuleTrigger m ruleId \<noteq> None"
  shows "lastRuleTrigger (fst (recordEvent now rnd inp m)) ruleId \<noteq> None"
proof -
  let ?e = "fullEvent now rnd inp"
  have "lastRuleTrigger (fst (checkRules now rnd 0 ?e (threatRules (appendEvent ?e m))
          (appendEvent ?e m))) ruleId \<noteq> None"
    by (rule checkRules_preserves[where P="\<lambda>m'. lastRuleTrigger m' ruleId \<noteq> None"])
       (use assms in \<open>simp_all add: lastRuleTrigger_handleThreatDetection appendEvent_def Let_def\<close>)
  then show ?thesis
    by (simp add: recordEvent_fst Let_def checkThreatRules_def split: option.split)
qed

text \<open>
  Claim C10, as the code has it. \<open>addThreatRule\<close> with the id of a registered rule puts
  the new rule in the old one's place and leaves \<open>lastRuleTrigger\<close> as it is, so the
  replacement is suppressed as long as the time since the old firing is below the
  replacement's own cooldown. \<open>removeThreatRule\<close> erases the entry of its id only,
  \<open>clear\<close> erases every entry, and \<open>recordEvent\<close> erases none.
\<close>

theorem addThreatRule_keeps_lastRuleTrigger:
  assumes "m = run ops (newSecurityMonitor cfg)"
  shows "lastRuleTrigger (addThreatRule rule m) = lastRuleTrigger m \<and>
         map_of (threatRules (addThreatRule rule m)) (id_rule rule) = Some rule \<and>
         (id_rule rule \<in> fst ` set (threatRules m) \<longrightarrow>
            map fst (threatRules (addThreatRule rule m)) = map fst (threatRules m)) \<and>
         (lastRuleTrigger m (id_rule rule) = Some t \<and> t \<noteq> 0 \<and> now - t < cooldown rule \<longrightarrow>
            firingsOf (id_rule rule) (fst (recordEvent now rnd inp (addThreatRule rule m))) =
              firingsOf (id_rule rule) m \<and>
            lastRuleTrigger (fst (recordEvent now rnd inp (addThreatRule rule m))) (id_rule rule) =
              Some t) \<and>
         lastRuleTrigger (removeThreatRule ruleId m) ruleId = None \<and>
         lastRuleTrigger (clear m) ruleId = None \<and>
         (ruleId' \<noteq> ruleId \<longrightarrow>
            lastRuleTrigger (removeThreatRule ruleId m) ruleId' = lastRuleTrigger m ruleId') \<and>
         (lastRuleTrigger m ruleId \<noteq> None \<longrightarrow>
            lastRuleTrigger (fst (recordEvent now rnd inp m)) ruleId \<noteq> None)"
proof -
  let ?m = "addThreatRule rule m"
  have ok: "registryOk (threatRules ?m)"
    unfolding assms
    by (intro registryOk_addThreatRule registryOk_run registryOk_newSecurityMonitor)
  have same: "lastRuleTrigger ?m = lastRuleTrigger m" "emitted ?m = emitted m"
    by (simp_all add: addThreatRule_def)
  have reg: "map_of (threatRules ?m) (id_rule rule) = Some rule"
    by (simp add: addThreatRule_def update_conv')
  have pos: "id_rule rule \<in> fst ` set (threatRules m) \<longrightarrow>
            map fst (threatRules ?m) = map fst (threatRules m)"
    by (simp add: addThreatRule_def update_keys)
  have supp: "firingsOf (id_rule rule) (fst (recordEvent now rnd inp ?m)) = firingsOf (id_rule rule) m \<and>
            lastRuleTrigger (fst (recordEvent now rnd inp ?m)) (id_rule rule) = Some t"
    if h: "lastRuleTrigger m (id_rule rule) = Some t" "t \<noteq> 0" "now - t < cooldown rule"
  proof -
    have "lastRuleTrigger ?m (id_rule rule) = Some t"
      using h(1) by (simp add: same)
    from recordEvent_suppressed[OF ok reg this h(2,3), of rnd inp] show ?thesis
      by (simp add: firingsOf_def same)
  qed
  have rem: "lastRuleTrigger (removeThreatRule ruleId m) ruleId = None"
    "lastRuleTrigger (clear m) ruleId = None"
    "ruleId' \<noteq> ruleId \<longrightarrow>
       lastRuleTrigger (removeThreatRule ruleId m) ruleId' = lastRuleTrigger m ruleId'"
    by (simp_all add: removeThreatRule_def clear_def)
  from same(1) reg pos supp rem lastRuleTrigger_recordEvent_kept[of m ruleId now rnd inp]
  show ?thesis
    by blast
qed

theorem addThreatRule_keeps_lastRuleTrigger_witness:
  "lastRuleTrigger cooldownMonitor ''eager'' = Some 5000 \<and>
   id_rule renamedRule = ''eager'' \<and>
   cooldown renamedRule = 1000 \<and>
   lastRuleTrigger (addThreatRule renamedRule cooldownMonitor) = lastRuleTrigger cooldownMonitor \<and>
   map fst (threatRules (addThreatRule renamedRule cooldownMonitor)) =
     map fst (threatRules cooldownMonitor) \<and>
   firingsOf ''eager''
     (fst (recordEvent 5100 (\<lambda>k. ''r'') xssInput (addThreatRule renamedRule cooldownMonitor))) =
     firingsOf ''eager'' cooldownMonitor \<and>
   lastRuleTrigger (removeThreatRule ''eager'' cooldownMonitor) ''eager'' = None \<and>
   lastRuleTrigger (fst (recordEvent 5100 (\<lambda>k. ''r'') xssInput cooldownMonitor)) ''eager'' \<noteq> None"
proof -
  have reach: "cooldownMonitor =
      run [sampleRecord 5000 XSS_ATTEMPT High ''a'']
        (newSecurityMonitor
           \<lparr> maxEventsHistory_cfg = None, threatDetectionRules = Some [eagerRule, echoRule] \<rparr>)"
    by (simp add: cooldownMonitor_def echoMonitor_def)
  have last: "lastRuleTrigger cooldownMonitor ''eager'' = Some 5000"
    by code_simp
  have r: "id_rule renamedRule = ''eager''" "cooldown renamedRule = 1000"
    by (simp_all add: renamedRule_def eagerRule_def)
  have reg: "''eager'' \<in> fst ` set (threatRules cooldownMonitor)"
    by (simp add: threatRules_cooldownMonitor)
  from addThreatRule_keeps_lastRuleTrigger[OF reach, of renamedRule 5000 5100 "\<lambda>k. ''r''" xssInput
      "''eager''" "''echo''"]
  show ?thesis
    using last reg by (simp add: r)
qed

text \<open>
  Claim C10 as stated fails where the cooldowns differ: the rule fired at 5000 with
  cooldown 1000; replaced under the same id by a rule with cooldown 0, it fires again at
  5100, before the old cooldown has expired.
\<close>

theorem replacement_uses_its_own_cooldown:
  "id_rule impatientRule = ''eager'' \<and>
   cooldown eagerRule = 1000 \<and>
   map_of (threatRules cooldownMonitor) ''eager'' = Some eagerRule \<and>
   lastRuleTrigger cooldownMonitor ''eager'' = Some 5000 \<and>
   firingsOf ''eager'' cooldownMonitor = 1 \<and>
   firingsOf ''eager''
     (fst (recordEvent 5100 (\<lambda>k. ''r'') xssInput (addThreatRule impatientRule cooldownMonitor))) = 2"
proof -
  have "map_of (threatRules cooldownMonitor) ''eager'' = Some eagerRule"
    by (simp add: threatRules_cooldownMonitor defaultRules_def)
  moreover have "id_rule impatientRule = ''eager''" "cooldown eagerRule = 1000"
    by (simp_all add: impatientRule_def eagerRule_def)
  moreover have "lastRuleTrigger cooldownMonitor ''eager'' = Some 5000 \<and>
   firingsOf ''eager'' cooldownMonitor = 1 \<and>
   firingsOf ''eager''
     (fst (recordEvent 5100 (\<lambda>k. ''r'') xssInput (addThreatRule impatientRule cooldownMonitor))) = 2"
    by code_simp
  ultimately show ?thesis
    by blast
qed

section \<open>Denial after the limit\<close>

lemma ceilDiv1000_least:
  "x \<le> 1000 * ceilDiv1000 x \<and> 1000 * (ceilDiv1000 x - 1) < x"
proof -
  define q where "q = (- x) div 1000"
  define r where "r = (- x) mod 1000"
  have "- x = 1000 * q + r"
    unfolding q_def r_def by simp
  then have x: "x = - (1000 * q) - r"
    by simp
  have r: "0 \<le> r" "r < 1000"
    unfolding r_def by simp_all
  have c: "ceilDiv1000 x = - q"
    unfolding ceilDiv1000_def q_def by simp
  show ?thesis
    unfolding c using r by (simp add: x algebra_simps)
qed

lemma ceilDiv1000_pos: "0 < ceilDiv1000 x \<longleftrightarrow> 0 < x"
  by (simp add: ceilDiv1000_def pos_imp_zdiv_neg_iff)

lemma isAllowedAt_Cons:
  "fst (isAllowedAt k (now # later) rl) = fst (isAllowedAt k later (fst (isAllowed now k rl)))"
  "snd (isAllowedAt k (now # later) rl) =
     snd (isAllowed now k rl) # snd (isAllowedAt k later (fst (isAllowed now k rl)))"
  by (simp_all split: prod.splits)

lemma config_isAllowed: "config (fst (isAllowed now k rl)) = config rl"
  by (simp add: isAllowed_def Let_def)

lemma limits_isAllowed:
  "limitWindowMs (fst (isAllowed now k rl)) = limitWindowMs rl"
  "limitMaxRequests (fst (isAllowed now k rl)) = limitMaxRequests rl"
  by (simp_all add: limitWindowMs_def limitMaxRequests_def config_isAllowed)

lemma isAllowed_denied:
  assumes "store rl k = Some e" "now \<le> resetTime e" "limitMaxRequests rl \<le> int (count e)"
  shows "isAllowed now k rl =
           (rl \<lparr> store := (store rl)(k \<mapsto> e \<lparr> violations := Suc (violations e) \<rparr>) \<rparr>,
            \<lparr> allowed = False, remaining = 0, resetTime_res = resetTime e,
              retryAfter = Some (ceilDiv1000 (resetTime e - now)) \<rparr>)"
  using assms by (simp add: isAllowed_def Let_def)

text \<open>An allowed call leaves an entry whose window is the one it reports.\<close>

lemma isAllowed_allowed_first:
  assumes "allowed (snd (isAllowed now k rl))"
  shows "\<exists>e. store (fst (isAllowed now k rl)) k = Some e \<and>
             resetTime e = resetTime_res (snd (isAllowed now k rl)) \<and> 1 \<le> count e"
  using assms by (auto simp: isAllowed_def Let_def split: option.splits if_splits)

text \<open>An allowed call that reports the window of the stored entry has just counted in it.\<close>

lemma isAllowed_allowed_same_window:
  assumes "store rl k = Some e" "0 < limitWindowMs rl"
    and "allowed (snd (isAllowed now k rl))"
    and "resetTime_res (snd (isAllowed now k rl)) = resetTime e"
  shows "store (fst (isAllowed now k rl)) k = Some (e \<lparr> count := Suc (count e) \<rparr>)"
  using assms by (auto simp: isAllowed_def Let_def split: if_splits)

lemma isAllowedAt_same_window:
  assumes "store rl k = Some e" "0 < limitWindowMs rl"
    and "list_all (\<lambda>r. allowed r \<and> resetTime_res r = resetTime e) (snd (isAllowedAt k ts rl))"
  shows "\<exists>e'. store (fst (isAllowedAt k ts rl)) k = Some e' \<and> resetTime e' = resetTime e \<and>
              count e' = count e + length ts \<and> violations e' = violations e"
  using assms
proof (induction ts arbitrary: rl e)
  case Nil
  then show ?case by simp
next
  case (Cons now later)
  let ?rl1 = "fst (isAllowed now k rl)"
  let ?e1 = "e \<lparr> count := Suc (count e) \<rparr>"
  have first: "allowed (snd (isAllowed now k rl))"
      "resetTime_res (snd (isAllowed now k rl)) = resetTime e"
    and rest: "list_all (\<lambda>r. allowed r \<and> resetTime_res r = resetTime e)
                 (snd (isAllowedAt k later ?rl1))"
    using Cons.prems(3) by (simp_all add: isAllowedAt_Cons del: isAllowedAt.simps)
  have e1: "store ?rl1 k = Some ?e1"
    by (rule isAllowed_allowed_same_window[OF Cons.prems(1,2) first])
  have w: "0 < limitWindowMs ?rl1"
    using Cons.prems(2) by (simp add: limits_isAllowed)
  from Cons.IH[OF e1 w] rest obtain e' where
    "store (fst (isAllowedAt k later ?rl1)) k = Some e'" "resetTime e' = resetTime e"
    "count e' = count ?e1 + length later" "violations e' = violations e"
    by auto
  then show ?case
    by (simp add: isAllowedAt_Cons del: isAllowedAt.simps)
qed

lemma limits_isAllowedAt:
  "limitWindowMs (fst (isAllowedAt k ts rl)) = limitWindowMs rl \<and>
   limitMaxRequests (fst (isAllowedAt k ts rl)) = limitMaxRequests rl"
  by (induction ts arbitrary: rl) (simp_all add: limits_isAllowed isAllowedAt_Cons del: isAllowedAt.simps(2))

lemma isAllowedAt_fills_window:
  assumes "0 < limitWindowMs rl" "ts \<noteq> []"
    and "list_all (\<lambda>r. allowed r \<and> resetTime_res r = resetAt) (snd (isAllowedAt k ts rl))"
  shows "\<exists>e. store (fst (isAllowedAt k ts rl)) k = Some e \<and> resetTime e = resetAt \<and>
             length ts \<le> count e"
proof -
  from assms(2) obtain now later where ts: "ts = now # later"
    by (cases ts) auto
  let ?rl1 = "fst (isAllowed now k rl)"
  have first: "allowed (snd (isAllowed now k rl))"
      "resetTime_res (snd (isAllowed now k rl)) = resetAt"
    and rest: "list_all (\<lambda>r. allowed r \<and> resetTime_res r = resetAt)
                 (snd (isAllowedAt k later ?rl1))"
    using assms(3) by (simp_all add: ts isAllowedAt_Cons del: isAllowedAt.simps)
  from isAllowed_allowed_first[OF first(1)] first(2) obtain e1 where
    e1: "store ?rl1 k = Some e1" "resetTime e1 = resetAt" "1 \<le> count e1"
    by auto
  have w: "0 < limitWindowMs ?rl1"
    using assms(1) by (simp add: limits_isAllowed)
  from isAllowedAt_same_window[OF e1(1) w, of later] rest e1(2) obtain e' where
    "store (fst (isAllowedAt k later ?rl1)) k = Some e'" "resetTime e' = resetAt"
    "count e' = count e1 + length later"
    by auto
  with e1(3) show ?thesis
    by (simp add: ts isAllowedAt_Cons del: isAllowedAt.simps)
qed

text \<open>The denial in terms of the window and the limit that \<open>isAllowed\<close> reads.\<close>

lemma isAllowed_denies_at_limit:
  assumes "0 < limitWindowMs rl" and "0 < limitMaxRequests rl"
    and "int (length ts) = limitMaxRequests rl"
    and "isAllowedAt k ts rl = (rl1, rs)"
    and "list_all (\<lambda>r. allowed r \<and> resetTime_res r = resetAt) rs"
    and "now \<le> resetAt"
    and "isAllowed now k rl1 = (rl2, r)"
  shows "\<not> allowed r \<and> remaining r = 0 \<and> resetTime_res r = resetAt \<and>
         (\<exists>e1 e2. store rl1 k = Some e1 \<and> store rl2 k = Some e2 \<and>
            violations e2 = Suc (violations e1) \<and> count e2 = count e1 \<and>
            resetTime e2 = resetAt) \<and>
         (\<exists>q. retryAfter r = Some q \<and>
            resetAt - now \<le> 1000 * q \<and> 1000 * (q - 1) < resetAt - now \<and>
            (0 < q \<longleftrightarrow> now < resetAt))"
proof -
  have ne: "ts \<noteq> []"
    using assms(2,3) by auto
  from isAllowedAt_fills_window[OF assms(1) ne, of resetAt k] assms(4,5) obtain e where
    e: "store rl1 k = Some e" "resetTime e = resetAt" "length ts \<le> count e"
    by auto
  have lim: "limitMaxRequests rl1 = limitMaxRequests rl"
    using limits_isAllowedAt[of k ts rl] by (simp add: assms(4))
  have full: "limitMaxRequests rl1 \<le> int (count e)"
    using e(3) assms(3) by (simp add: lim)
  have now: "now \<le> resetTime e"
    using assms(6) by (simp add: e(2))
  from isAllowed_denied[OF e(1) now full] assms(7)
  have r: "r = \<lparr> allowed = False, remaining = 0, resetTime_res = resetTime e,
                 retryAfter = Some (ceilDiv1000 (resetTime e - now)) \<rparr>"
    and rl2: "rl2 = rl1 \<lparr> store := (store rl1)(k \<mapsto> e \<lparr> violations := Suc (violations e) \<rparr>) \<rparr>"
    by simp_all
  have "\<exists>e1 e2. store rl1 k = Some e1 \<and> store rl2 k = Some e2 \<and>
            violations e2 = Suc (violations e1) \<and> count e2 = count e1 \<and>
            resetTime e2 = resetAt"
    using e(1,2) by (simp add: rl2)
  moreover have "\<exists>q. retryAfter r = Some q \<and>
            resetAt - now \<le> 1000 * q \<and> 1000 * (q - 1) < resetAt - now \<and>
            (0 < q \<longleftrightarrow> now < resetAt)"
    using ceilDiv1000_least[of "resetAt - now"] ceilDiv1000_pos[of "resetAt - now"]
    by (simp add: r e(2))
  ultimately show ?thesis
    by (simp add: r e(2))
qed


text \<open>A limiter keeps the window and the limit it was constructed with.\<close>

lemma limits_of_options:
  assumes "config rl = config (newAdvancedRateLimiter opts)"
    and "windowMs opts = Some window" "0 < window"
    and "maxRequests opts = Some limit" "0 < limit"
  shows "limitWindowMs rl = window" "limitMaxRequests rl = limit"
  using assms
  by (simp_all add: limitWindowMs_def limitMaxRequests_def newAdvancedRateLimiter_def orElse_def)

text \<open>
  Claim C4, as the code has it. Let a limiter be constructed with a strictly positive
  window \<open>windowMs\<close> and a strictly positive limit \<open>maxRequests\<close>, and be in any state of
  its store. After as many calls for a key as the limit, all allowed and all reporting the
  same reset instant, a further call for the key at an instant not after that reset
  instant is denied with \<open>remaining = 0\<close>, adds one violation to the entry and changes
  nothing else in it, and returns as \<open>retryAfter\<close> the least integer \<open>q\<close> with
  \<open>resetAt - now \<le> 1000 * q\<close>; this is strictly positive exactly when the call comes
  before the reset instant, and 0 at the reset instant itself, where the window is still
  open for the code.
\<close>

theorem isAllowed_denies_after_max:
  assumes "config rl = config (newAdvancedRateLimiter opts)"
    and "windowMs opts = Some window" and "0 < window"
    and "maxRequests opts = Some limit" and "0 < limit"
    and "int (length ts) = limit"
    and "isAllowedAt k ts rl = (rl1, rs)"
    and "list_all (\<lambda>r. allowed r \<and> resetTime_res r = resetAt) rs"
    and "now \<le> resetAt"
    and "isAllowed now k rl1 = (rl2, r)"
  shows "\<not> allowed r \<and> remaining r = 0 \<and> resetTime_res r = resetAt \<and>
         (\<exists>e1 e2. store rl1 k = Some e1 \<and> store rl2 k = Some e2 \<and>
            violations e2 = Suc (violations e1) \<and> count e2 = count e1 \<and>
            resetTime e2 = resetAt) \<and>
         (\<exists>q. retryAfter r = Some q \<and>
            resetAt - now \<le> 1000 * q \<and> 1000 * (q - 1) < resetAt - now \<and>
            (0 < q \<longleftrightarrow> now < resetAt))"
proof -
  note lim = limits_of_options[OF assms(1-5)]
  show ?thesis
  proof (rule isAllowed_denies_at_limit[OF _ _ _ assms(7,8,9,10)])
    show "0 < limitWindowMs rl" "0 < limitMaxRequests rl" "int (length ts) = limitMaxRequests rl"
      using assms(3,5,6) by (simp_all add: lim)
  qed
qed

theorem isAllowed_denies_after_max_witness:
  "sampleLimiter =
     newAdvancedRateLimiter \<lparr> windowMs = Some 1000, max_opt = None, maxRequests = Some 2 \<rparr> \<and>
   list_all (\<lambda>r. allowed r \<and> resetTime_res r = 6000)
     (snd (isAllowedAt ''k'' [5000, 5010] sampleLimiter)) \<and>
   \<not> allowed (snd (isAllowed 5500 ''k'' (fst (isAllowedAt ''k'' [5000, 5010] sampleLimiter)))) \<and>
   remaining (snd (isAllowed 5500 ''k'' (fst (isAllowedAt ''k'' [5000, 5010] sampleLimiter)))) = 0 \<and>
   retryAfter (snd (isAllowed 5500 ''k'' (fst (isAllowedAt ''k'' [5000, 5010] sampleLimiter)))) =
     Some 1"
proof -
  let ?opts = "\<lparr> windowMs = Some 1000, max_opt = None, maxRequests = Some (2::int) \<rparr>"
  let ?rl1 = "fst (isAllowedAt ''k'' [5000, 5010] sampleLimiter)"
  let ?rs = "snd (isAllowedAt ''k'' [5000, 5010] sampleLimiter)"
  let ?r = "snd (isAllowed 5500 ''k'' ?rl1)"
  have built: "config sampleLimiter = config (newAdvancedRateLimiter ?opts)"
    by (simp add: sampleLimiter_def)
  have rs: "list_all (\<lambda>r. allowed r \<and> resetTime_res r = 6000) ?rs"
    by code_simp
  have "\<not> allowed ?r \<and> remaining ?r = 0 \<and> resetTime_res ?r = 6000 \<and>
         (\<exists>e1 e2. store ?rl1 ''k'' = Some e1 \<and>
            store (fst (isAllowed 5500 ''k'' ?rl1)) ''k'' = Some e2 \<and>
            violations e2 = Suc (violations e1) \<and> count e2 = count e1 \<and>
            resetTime e2 = 6000) \<and>
         (\<exists>q. retryAfter ?r = Some q \<and>
            6000 - 5500 \<le> 1000 * q \<and> 1000 * (q - 1) < 6000 - 5500 \<and>
            (0 < q \<longleftrightarrow> (5500::int) < 6000))"
  proof (rule isAllowed_denies_after_max[OF built _ _ _ _ _ prod.collapse[symmetric] rs _
          prod.collapse[symmetric]])
    show "windowMs ?opts = Some 1000" "(0::int) < 1000" "maxRequests ?opts = Some 2" "(0::int) < 2"
      "int (length [5000, 5010 :: int]) = 2" "(5500::int) \<le> 6000"
      by simp_all
  qed
  then have "\<not> allowed ?r" "remaining ?r = 0" "retryAfter ?r = Some 1"
    by auto
  with rs show ?thesis
    by (simp add: sampleLimiter_def)
qed

text \<open>
  Claim C4 as stated fails at the reset instant: the third call of a two-request window
  made exactly at \<open>resetTime\<close> is denied in the same window with \<open>retryAfter = 0\<close>.
\<close>

theorem retryAfter_zero_at_resetTime:
  "windowMs (config sampleLimiter) = Some 1000 \<and>
   maxRequests (config sampleLimiter) = Some 2 \<and>
   limitWindowMs sampleLimiter = 1000 \<and>
   limitMaxRequests sampleLimiter = 2 \<and>
   map allowed (snd (isAllowedAt ''k'' [5000, 5010] sampleLimiter)) = [True, True] \<and>
   map resetTime_res (snd (isAllowedAt ''k'' [5000, 5010] sampleLimiter)) = [6000, 6000] \<and>
   \<not> allowed (snd (isAllowed 6000 ''k'' (fst (isAllowedAt ''k'' [5000, 5010] sampleLimiter)))) \<and>
   resetTime_res (snd (isAllowed 6000 ''k'' (fst (isAllowedAt ''k'' [5000, 5010] sampleLimiter)))) =
     6000 \<and>
   retryAfter (snd (isAllowed 6000 ''k'' (fst (isAllowedAt ''k'' [5000, 5010] sampleLimiter)))) =
     Some 0"
  by code_simp

end
